theory Spec2Isabelle
  imports Complex_Main "HOL-Library.Word" "HOL-Library.Log_Nat"
begin

section \<open>The Analyzer of package frequency\<close>

text \<open>
  The Go source keeps, per Analyzer, a table \<^verbatim>\<open>frequency [256]int64\<close> indexed by a byte and
  a counter \<^verbatim>\<open>size int64\<close>. A fixed array of 256 entries indexed by a byte is a total function
  on \<open>8 word\<close>; an \<^verbatim>\<open>int64\<close> is a \<open>64 word\<close>, whose addition wraps as Go's does and
  whose signed reading is \<open>sint\<close>. The read-write lock \<^verbatim>\<open>mu\<close> has no sequential meaning and
  is left out.
\<close>

type_synonym byte = "8 word"
type_synonym int64 = "64 word"

record Analyzer =
  frequency :: "byte \<Rightarrow> int64"
  size :: int64

text \<open>\<^verbatim>\<open>func NewAnalyzer() *Analyzer { return &Analyzer{} }\<close>: the zero value.\<close>

definition NewAnalyzer :: Analyzer where
  "NewAnalyzer = \<lparr>frequency = (\<lambda>_. 0), size = 0\<rparr>"

text \<open>
  The body of the loop of \<^verbatim>\<open>Feed\<close>:
  \<^verbatim>\<open>a.frequency[character] += 1; a.size += 1\<close>.
\<close>

definition Feed_step :: "Analyzer \<Rightarrow> byte \<Rightarrow> Analyzer" where
  "Feed_step a character =
     a\<lparr>frequency := (frequency a)(character := frequency a character + 1),
       size := size a + 1\<rparr>"

text \<open>\<^verbatim>\<open>for _, character := range contents { ... }\<close>\<close>

fun Feed :: "Analyzer \<Rightarrow> byte list \<Rightarrow> Analyzer" where
  "Feed a [] = a"
| "Feed a (character # contents) = Feed (Feed_step a character) contents"

text \<open>
  The sum of the 256 entries in index order, as the loop
  \<^verbatim>\<open>for _, v := range a.frequency { a.size += v }\<close> of \<^verbatim>\<open>Restore\<close> accumulates it
  onto a start value.
\<close>

definition sum_from :: "int64 \<Rightarrow> (byte \<Rightarrow> int64) \<Rightarrow> int64" where
  "sum_from s f = foldl (\<lambda>acc i. acc + f (word_of_nat i)) s [0..<256]"

definition sum_frequency :: "Analyzer \<Rightarrow> int64" where
  "sum_frequency a = sum_from 0 (frequency a)"

section \<open>Go's float64\<close>

text \<open>
  Go's \<^verbatim>\<open>float64\<close> is the IEEE-754 binary64 format, every operation rounded to nearest,
  ties to even. A value is kept as sign and magnitude: \<open>Fin s m\<close> is the finite number
  \<open>m\<close> (a non-negative rational), negated when \<open>s\<close> holds, so that \<open>Fin True 0\<close> is the
  negative zero; \<open>Inf s\<close> is an infinity and \<open>NaN\<close> the not-a-number. Each operation of the
  source is rounded on its own (as on amd64, where the compiler fuses no multiply-add).
\<close>

datatype float64 = Fin bool rat | Inf bool | NaN

text \<open>\<open>flog2 q\<close> is the binary exponent of a positive rational: \<open>2 powi flog2 q \<le> q < 2 powi (flog2 q + 1)\<close>.\<close>

definition flog2 :: "rat \<Rightarrow> int" where
  "flog2 q = (if 1 \<le> q then bitlen \<lfloor>q\<rfloor> - 1 else - bitlen (\<lceil>1 / q\<rceil> - 1))"

text \<open>Rounding to the nearest integer, a tie going to the even neighbour.\<close>

definition round_even :: "rat \<Rightarrow> int" where
  "round_even x =
     (let f = \<lfloor>x\<rfloor>; d = x - of_int f
      in if d < 1 / 2 then f else if 1 / 2 < d then f + 1 else if even f then f else f + 1)"

text \<open>
  The spacing of the representable numbers around a magnitude: 53 significant bits, and
  below \<open>2 powi -1022\<close> the spacing stays \<open>2 powi -1074\<close> (the subnormal numbers).
\<close>

definition ulp :: "rat \<Rightarrow> rat" where
  "ulp q = 2 powi (max (flog2 q) (- 1022) - 52)"

text \<open>Rounding a magnitude to the nearest multiple of its spacing.\<close>

definition rnd :: "rat \<Rightarrow> rat" where
  "rnd q = of_int (round_even (q / ulp q)) * ulp q"

text \<open>The rounded result with its sign; a magnitude that reaches \<open>2 powi 1024\<close> overflows.\<close>

definition fl :: "bool \<Rightarrow> rat \<Rightarrow> float64" where
  "fl s q = (let m = rnd q in if 2 powi 1024 \<le> m then Inf s else Fin s m)"

text \<open>The signed value of a finite number.\<close>

definition sv :: "bool \<Rightarrow> rat \<Rightarrow> rat" where
  "sv s m = (if s then - m else m)"

fun fneg :: "float64 \<Rightarrow> float64" where
  "fneg (Fin s m) = Fin (\<not> s) m"
| "fneg (Inf s) = Inf (\<not> s)"
| "fneg NaN = NaN"

text \<open>\<^verbatim>\<open>math.Abs\<close> clears the sign bit.\<close>

fun fabs :: "float64 \<Rightarrow> float64" where
  "fabs (Fin s m) = Fin False m"
| "fabs (Inf s) = Inf False"
| "fabs NaN = NaN"

text \<open>
  Addition. An exact sum of zero is the negative zero only when both operands are negative
  zeros; opposite infinities give \<open>NaN\<close>.
\<close>

fun fadd :: "float64 \<Rightarrow> float64 \<Rightarrow> float64" where
  "fadd (Fin s x) (Fin t y) =
     (let v = sv s x + sv t y in if v = 0 then Fin (s \<and> t) 0 else fl (v < 0) \<bar>v\<bar>)"
| "fadd (Fin s x) (Inf t) = Inf t"
| "fadd (Inf s) (Fin t y) = Inf s"
| "fadd (Inf s) (Inf t) = (if s = t then Inf s else NaN)"
| "fadd NaN b = NaN"
| "fadd a NaN = NaN"

definition fsub :: "float64 \<Rightarrow> float64 \<Rightarrow> float64" where
  "fsub a b = fadd a (fneg b)"

fun fmul :: "float64 \<Rightarrow> float64 \<Rightarrow> float64" where
  "fmul (Fin s x) (Fin t y) = fl (s \<noteq> t) (x * y)"
| "fmul (Fin s x) (Inf t) = (if x = 0 then NaN else Inf (s \<noteq> t))"
| "fmul (Inf s) (Fin t y) = (if y = 0 then NaN else Inf (s \<noteq> t))"
| "fmul (Inf s) (Inf t) = Inf (s \<noteq> t)"
| "fmul NaN b = NaN"
| "fmul a NaN = NaN"

fun fdiv :: "float64 \<Rightarrow> float64 \<Rightarrow> float64" where
  "fdiv (Fin s x) (Fin t y) =
     (if y = 0 then (if x = 0 then NaN else Inf (s \<noteq> t)) else fl (s \<noteq> t) (x / y))"
| "fdiv (Fin s x) (Inf t) = Fin (s \<noteq> t) 0"
| "fdiv (Inf s) (Fin t y) = Inf (s \<noteq> t)"
| "fdiv (Inf s) (Inf t) = NaN"
| "fdiv NaN b = NaN"
| "fdiv a NaN = NaN"

text \<open>The comparisons \<^verbatim>\<open>a > b\<close> and \<^verbatim>\<open>a == b\<close>: false whenever an operand is \<open>NaN\<close>.\<close>

fun fgt :: "float64 \<Rightarrow> float64 \<Rightarrow> bool" where
  "fgt (Fin s x) (Fin t y) = (sv t y < sv s x)"
| "fgt (Fin s x) (Inf t) = t"
| "fgt (Inf s) (Fin t y) = (\<not> s)"
| "fgt (Inf s) (Inf t) = (\<not> s \<and> t)"
| "fgt NaN b = False"
| "fgt a NaN = False"

fun feq :: "float64 \<Rightarrow> float64 \<Rightarrow> bool" where
  "feq (Fin s x) (Fin t y) = (sv s x = sv t y)"
| "feq (Inf s) (Inf t) = (s = t)"
| "feq a b = False"

text \<open>The conversion \<^verbatim>\<open>float64(v)\<close> of an \<^verbatim>\<open>int64\<close>: the signed value, rounded.\<close>

definition float64_of :: "int64 \<Rightarrow> float64" where
  "float64_of w = (let i = sint w in fl (i < 0) \<bar>of_int i\<bar>)"

text \<open>The constants \<^verbatim>\<open>0\<close> and \<^verbatim>\<open>1\<close> of the source at type \<^verbatim>\<open>float64\<close>.\<close>

definition f0 :: float64 where
  "f0 = Fin False 0"

definition f1 :: float64 where
  "f1 = Fin False 1"

text \<open>The finite numbers that are not below zero (either zero among them).\<close>

fun nonneg_finite :: "float64 \<Rightarrow> bool" where
  "nonneg_finite (Fin s m) = (0 \<le> m \<and> 0 \<le> sv s m)"
| "nonneg_finite (Inf s) = False"
| "nonneg_finite NaN = False"

section \<open>Scoring\<close>

text \<open>
  \<^verbatim>\<open>func max(a, b float64) float64 { if a > b { return a } else { return b } }\<close>
\<close>

definition max_float64 :: "float64 \<Rightarrow> float64 \<Rightarrow> float64" where
  "max_float64 a b = (if fgt a b then a else b)"

text \<open>
  \<^verbatim>\<open>if a == 0 && b == 0 { return 0 }; return math.Abs(a-b) / max(a, b)\<close>
\<close>

definition relativeDifference :: "float64 \<Rightarrow> float64 \<Rightarrow> float64" where
  "relativeDifference a b =
     (if feq a f0 \<and> feq b f0 then f0 else fdiv (fabs (fsub a b)) (max_float64 a b))"

text \<open>
  One round of the loop of \<^verbatim>\<open>scoreFrequencies\<close>:
  \<^verbatim>\<open>r = float64(ref.frequency[i]) / float64(ref.size)\<close>,
  \<^verbatim>\<open>t = float64(target.frequency[i]) / float64(target.size)\<close>,
  \<^verbatim>\<open>score += (r * (1 - relativeDifference(r, t)))\<close>. The quotient
  \<^verbatim>\<open>float64(x.frequency[i]) / float64(x.size)\<close> is written once, as \<open>normalized x i\<close>.
\<close>

definition normalized :: "Analyzer \<Rightarrow> nat \<Rightarrow> float64" where
  "normalized a i = fdiv (float64_of (frequency a (word_of_nat i))) (float64_of (size a))"

definition score_step :: "Analyzer \<Rightarrow> Analyzer \<Rightarrow> float64 \<Rightarrow> nat \<Rightarrow> float64" where
  "score_step ref target score i =
     (let r = normalized ref i;
          t = normalized target i
      in fadd score (fmul r (fsub f1 (relativeDifference r t))))"

text \<open>\<^verbatim>\<open>for i := 0; i < 256; i++ { ... }\<close> from the zero value of the named result.\<close>

definition scoreFrequencies :: "Analyzer \<Rightarrow> Analyzer \<Rightarrow> float64" where
  "scoreFrequencies ref target = foldl (score_step ref target) f0 [0..<256]"

text \<open>
  \<^verbatim>\<open>other := NewAnalyzer(); other.Feed(contents); return scoreFrequencies(a, other)\<close>
\<close>

definition Score :: "Analyzer \<Rightarrow> byte list \<Rightarrow> float64" where
  "Score a contents = scoreFrequencies a (Feed NewAnalyzer contents)"

text \<open>
  \<^verbatim>\<open>return a.Score([]byte(text))\<close>: the bytes of the string as they are.
\<close>

definition ScoreString :: "Analyzer \<Rightarrow> string \<Rightarrow> float64" where
  "ScoreString a text = Score a (map of_char text)"

text \<open>
  What the loop's additions come to on magnitudes: the terms are added one by one, in order,
  each sum rounded.
\<close>

fun fsum :: "rat \<Rightarrow> rat list \<Rightarrow> rat" where
  "fsum s [] = s"
| "fsum s (x # xs) = fsum (rnd (s + x)) xs"

text \<open>
  The unit roundoff of the format, and the magnitudes on which rounding has a relative
  error of at most that much: zero and everything from the smallest normal number on.
\<close>

definition u53 :: rat where
  "u53 = 1 / 2 ^ 53"

definition noz :: "rat \<Rightarrow> bool" where
  "noz q = (q = 0 \<or> 2 powi (- 1022) \<le> q)"

text \<open>
  The magnitude of a normalized frequency \<^verbatim>\<open>float64(c) / float64(n)\<close> for a count
  \<open>c\<close> and a size \<open>n\<close> that are not negative: both conversions and the quotient round.
\<close>

definition nfreq :: "int \<Rightarrow> int \<Rightarrow> rat" where
  "nfreq c n = rnd (rnd (of_int c) / rnd (of_int n))"

section \<open>Persistence\<close>

text \<open>
  \<^verbatim>\<open>Save\<close> and \<^verbatim>\<open>Restore\<close> go through \<^verbatim>\<open>os.Create\<close>, \<^verbatim>\<open>os.Open\<close> and package
  \<^verbatim>\<open>encoding/gob\<close>, none of which belongs to the repository. They are parameters here:
  a file system says, per path, whether creating the file fails and what opening it gives
  (an error or the file's content, of some type \<open>'f\<close>); a codec says what encoding a table
  writes and whether it fails, and what decoding a content into a destination table leaves
  in that table and whether it fails. \<^verbatim>\<open>Decode(&a.frequency)\<close> is handed the live table, so
  the table it leaves is part of its result also when it fails.
\<close>

type_synonym path = string

datatype error = Error string

record 'f gob =
  Encode :: "(byte \<Rightarrow> int64) \<Rightarrow> error option \<times> 'f"
  Decode :: "'f \<Rightarrow> (byte \<Rightarrow> int64) \<Rightarrow> error option \<times> (byte \<Rightarrow> int64)"

record 'f filesystem =
  os_Create :: "path \<Rightarrow> error option"
  os_Open :: "path \<Rightarrow> error + 'f"

text \<open>
  \<^verbatim>\<open>file, err := os.Create(path); if err != nil { return err }\<close>, then
  \<^verbatim>\<open>encoder.Encode(a.frequency)\<close>, whose error, if any, is returned. Only the table is
  handed to the encoder.
\<close>

definition Save :: "'f gob \<Rightarrow> Analyzer \<Rightarrow> path \<Rightarrow> 'f filesystem \<Rightarrow> error option \<times> 'f filesystem" where
  "Save g a p fs =
     (case os_Create fs p of
        Some err \<Rightarrow> (Some err, fs)
      | None \<Rightarrow>
          (case Encode g (frequency a) of
             (err, written) \<Rightarrow> (err, fs\<lparr>os_Open := (os_Open fs)(p := Inr written)\<rparr>)))"

text \<open>
  \<^verbatim>\<open>file, err := os.Open(path); if err != nil { return err }\<close>, then
  \<^verbatim>\<open>decoder.Decode(&a.frequency)\<close> with an early return on its error, then
  \<^verbatim>\<open>for _, v := range a.frequency { a.size += v }\<close>.
\<close>

definition Restore :: "'f gob \<Rightarrow> Analyzer \<Rightarrow> path \<Rightarrow> 'f filesystem \<Rightarrow> error option \<times> Analyzer" where
  "Restore g a p fs =
     (case os_Open fs p of
        Inl err \<Rightarrow> (Some err, a)
      | Inr file \<Rightarrow>
          (case Decode g file (frequency a) of
             (Some err, table) \<Rightarrow> (Some err, a\<lparr>frequency := table\<rparr>)
           | (None, table) \<Rightarrow> (None, a\<lparr>frequency := table, size := sum_from (size a) table\<rparr>)))"

text \<open>What the spec asks of the codec: a table that was encoded without error decodes to itself.\<close>

definition round_trip :: "'f gob \<Rightarrow> bool" where
  "round_trip g =
     (\<forall>table written dst. Encode g table = (None, written) \<longrightarrow> Decode g written dst = (None, table))"

subsection \<open>A codec for the examples\<close>

text \<open>
  A file holds the sequence of integers of its stream. A stream of more than 256 integers
  is refused before anything is stored, as gob compares the length of the array first.
  Otherwise decoding stores the integers one by one into the destination, as gob's array
  decoder does with the elements it reads, and fails when the stream ends before the 256th.
\<close>

fun decode_from :: "nat \<Rightarrow> int64 list \<Rightarrow> (byte \<Rightarrow> int64) \<Rightarrow> error option \<times> (byte \<Rightarrow> int64)" where
  "decode_from i [] dst =
     (if i = 256 then None else Some (Error ''length exceeds input size''), dst)"
| "decode_from i (w # ws) dst = decode_from (Suc i) ws (dst(word_of_nat i := w))"

definition seq_Decode :: "int64 list \<Rightarrow> (byte \<Rightarrow> int64) \<Rightarrow> error option \<times> (byte \<Rightarrow> int64)" where
  "seq_Decode ws dst =
     (if 256 < length ws then (Some (Error ''length mismatch''), dst) else decode_from 0 ws dst)"

definition seq_gob :: "int64 list gob" where
  "seq_gob =
     \<lparr>Encode = (\<lambda>table. (None, map (\<lambda>i. table (word_of_nat i)) [0..<256])),
      Decode = seq_Decode\<rparr>"

text \<open>A file system in which only the path \<open>''model.gob''\<close> can be created and nothing exists yet.\<close>

definition fs0 :: "int64 list filesystem" where
  "fs0 =
     \<lparr>os_Create = (\<lambda>p. if p = ''model.gob'' then None else Some (Error ''permission denied'')),
      os_Open = (\<lambda>p. Inl (Error ''no such file''))\<rparr>"

text \<open>
  Three scenarios of the examples: an Analyzer that was fed the single byte 120; the same
  Analyzer after it was saved and restored into itself; and a file whose stream ends after
  one integer.
\<close>

definition fed_once :: Analyzer where
  "fed_once = Feed NewAnalyzer [120]"

definition self_restored :: Analyzer where
  "self_restored =
     snd (Restore seq_gob fed_once ''model.gob'' (snd (Save seq_gob fed_once ''model.gob'' fs0)))"

definition fs_short :: "int64 list filesystem" where
  "fs_short = fs0\<lparr>os_Open := (os_Open fs0)(''model.gob'' := Inr [7])\<rparr>"

section \<open>Analyzers behind pointers\<close>

text \<open>
  The methods have pointer receivers, and \<^verbatim>\<open>Score\<close> allocates a second Analyzer. A store
  maps the addresses in use to Analyzers; \<open>next_ref\<close> is the next address to hand out.
  A method called on an address that holds nothing panics (\<open>None\<close>).
\<close>

type_synonym ref = nat

record store =
  cells :: "ref \<rightharpoonup> Analyzer"
  next_ref :: ref

definition wf_store :: "store \<Rightarrow> bool" where
  "wf_store h = (\<forall>r. cells h r \<noteq> None \<longrightarrow> r < next_ref h)"

definition empty_store :: store where
  "empty_store = \<lparr>cells = Map.empty, next_ref = 0\<rparr>"

definition NewAnalyzer_at :: "store \<Rightarrow> ref \<times> store" where
  "NewAnalyzer_at h =
     (next_ref h, h\<lparr>cells := (cells h)(next_ref h \<mapsto> NewAnalyzer), next_ref := Suc (next_ref h)\<rparr>)"

definition Feed_at :: "ref \<Rightarrow> byte list \<Rightarrow> store \<Rightarrow> store option" where
  "Feed_at a contents h =
     (case cells h a of
        None \<Rightarrow> None
      | Some x \<Rightarrow> Some (h\<lparr>cells := (cells h)(a \<mapsto> Feed x contents)\<rparr>))"

definition Score_at :: "ref \<Rightarrow> byte list \<Rightarrow> store \<Rightarrow> (float64 \<times> store) option" where
  "Score_at a contents h =
     (case NewAnalyzer_at h of
        (other, h1) \<Rightarrow>
          (case Feed_at other contents h1 of
             None \<Rightarrow> None
           | Some h2 \<Rightarrow>
               (case (cells h2 a, cells h2 other) of
                  (Some x, Some y) \<Rightarrow> Some (scoreFrequencies x y, h2)
                | _ \<Rightarrow> None)))"

definition ScoreString_at :: "ref \<Rightarrow> string \<Rightarrow> store \<Rightarrow> (float64 \<times> store) option" where
  "ScoreString_at a text h = Score_at a (map of_char text) h"

definition Save_at ::
  "'f gob \<Rightarrow> ref \<Rightarrow> path \<Rightarrow> 'f filesystem \<Rightarrow> store \<Rightarrow> ((error option \<times> 'f filesystem) \<times> store) option" where
  "Save_at g a p fs h =
     (case os_Create fs p of
        Some err \<Rightarrow> Some ((Some err, fs), h)
      | None \<Rightarrow>
          (case cells h a of
             None \<Rightarrow> None
           | Some x \<Rightarrow> Some (Save g x p fs, h)))"

section \<open>Feed: counting\<close>

lemma Feed_append: "Feed a (xs @ ys) = Feed (Feed a xs) ys"
  by (induction xs arbitrary: a) simp_all

lemma frequency_Feed:
  "frequency (Feed a xs) b = frequency a b + word_of_nat (count_list xs b)"
  by (induction xs arbitrary: a) (simp_all add: Feed_step_def)

lemma size_Feed: "size (Feed a xs) = size a + word_of_nat (length xs)"
  by (induction xs arbitrary: a) (simp_all add: Feed_step_def)

lemma Feed_eq:
  "Feed a xs = \<lparr>frequency = (\<lambda>b. frequency a b + word_of_nat (count_list xs b)),
                size = size a + word_of_nat (length xs)\<rparr>"
proof -
  have "frequency (Feed a xs) = (\<lambda>b. frequency a b + word_of_nat (count_list xs b))"
    by (rule ext) (rule frequency_Feed)
  moreover have "Analyzer.more (Feed a xs) = ()"
    by simp
  ultimately show ?thesis
    by (cases "Feed a xs") (simp add: size_Feed [symmetric])
qed

text \<open>
  C6. For all byte sequences A and B, feeding A then B to a fresh Analyzer gives the same
  counters and size as feeding B then A, and the same as one Feed of the concatenation of
  A and B.
\<close>

theorem Feed_commutes:
  "Feed (Feed NewAnalyzer A) B = Feed (Feed NewAnalyzer B) A \<and>
   Feed (Feed NewAnalyzer A) B = Feed NewAnalyzer (A @ B)"
proof
  show "Feed (Feed NewAnalyzer A) B = Feed (Feed NewAnalyzer B) A"
    by (simp add: Feed_eq [of "Feed NewAnalyzer A"] Feed_eq [of "Feed NewAnalyzer B"]
        frequency_Feed size_Feed add.commute add.left_commute)
  show "Feed (Feed NewAnalyzer A) B = Feed NewAnalyzer (A @ B)"
    by (simp add: Feed_append)
qed

section \<open>Persistence: what Save and Restore do\<close>

lemma foldl_add_shift:
  "foldl (\<lambda>acc i. acc + g i) s xs = s + foldl (\<lambda>acc i. acc + g i) (0::int64) xs"
  by (induction xs rule: rev_induct) (simp_all add: add.assoc)

lemma sum_from_shift: "sum_from s f = s + sum_from 0 f"
  unfolding sum_from_def by (rule foldl_add_shift)

lemma foldl_add_sum_list:
  "foldl (\<lambda>acc i. acc + g i) (0::int64) xs = sum_list (map g xs)"
  by (induction xs rule: rev_induct) simp_all

lemma sum_from_UNIV: "sum_from 0 f = (\<Sum>b\<in>UNIV. f b)"
proof -
  have "sum_from 0 f = sum_list (map (\<lambda>i. f (word_of_nat i)) [0..<256])"
    unfolding sum_from_def by (rule foldl_add_sum_list)
  also have "\<dots> = (\<Sum>i = 0..<256. f (word_of_nat i))"
    by (simp add: interv_sum_list_conv_sum_set_nat)
  also have "\<dots> = sum f (word_of_nat ` {0..<256})"
    using inj_on_word_of_nat [where 'a = 8] by (simp add: sum.reindex)
  also have "word_of_nat ` {0..<256} = (UNIV :: byte set)"
    using UNIV_word_eq_word_of_nat [where 'a = 8] by simp
  finally show ?thesis .
qed

lemma sum_frequency_Feed_step: "sum_frequency (Feed_step a c) = sum_frequency a + 1"
proof -
  have "(frequency a)(c := frequency a c + 1) = (\<lambda>b. frequency a b + (if b = c then 1 else 0))"
    by (rule ext) simp
  then show ?thesis
    by (simp add: sum_frequency_def sum_from_UNIV Feed_step_def sum.distrib)
qed

lemma sum_frequency_Feed: "sum_frequency (Feed a xs) = sum_frequency a + word_of_nat (length xs)"
  by (induction xs arbitrary: a) (simp_all add: sum_frequency_Feed_step)

text \<open>Feed keeps size equal to the sum of the counters.\<close>

lemma Feed_invariant:
  "size a = sum_frequency a \<Longrightarrow> size (Feed a xs) = sum_frequency (Feed a xs)"
  by (simp add: sum_frequency_Feed size_Feed)

lemma sum_frequency_NewAnalyzer: "sum_frequency NewAnalyzer = 0"
  by (simp add: sum_frequency_def sum_from_UNIV NewAnalyzer_def)

text \<open>
  A successful Restore adds the sum of the restored counters to the size it finds, so that
  size is their sum only if it was 0 before.
\<close>

lemma Restore_size:
  "Restore g a p fs = (None, a') \<Longrightarrow> size a' = size a + sum_frequency a'"
  by (auto simp: Restore_def sum_frequency_def sum_from_shift [of "size a"]
      split: sum.splits prod.splits option.splits)

lemma decode_from_map:
  "i \<le> 256 \<Longrightarrow>
   decode_from i (map (\<lambda>k. table (word_of_nat k)) [i..<256]) dst =
     (None, \<lambda>b. if i \<le> unat (b::byte) then table b else dst b)"
proof (induction "256 - i" arbitrary: i dst)
  case 0
  then have "i = 256" by simp
  moreover have "\<not> 256 \<le> unat b" for b :: byte
    using unsigned_less [of b, where 'a = nat] by simp
  ultimately show ?case by simp
next
  case (Suc n)
  then have i: "i < 256" by simp
  have eq: "(\<lambda>b. if Suc i \<le> unat b then table b else (dst(word_of_nat i := table (word_of_nat i))) b)
      = (\<lambda>b::byte. if i \<le> unat b then table b else dst b)"
  proof (rule ext)
    fix b :: byte
    show "(if Suc i \<le> unat b then table b else (dst(word_of_nat i := table (word_of_nat i))) b)
      = (if i \<le> unat b then table b else dst b)"
    proof (cases "unat b = i")
      case True
      then have "b = word_of_nat i" by auto
      with True show ?thesis by simp
    next
      case False
      then have "b \<noteq> word_of_nat i"
        using i by (auto simp: unat_of_nat)
      with False show ?thesis by auto
    qed
  qed
  from Suc i have "decode_from (Suc i) (map (\<lambda>k. table (word_of_nat k)) [Suc i..<256])
       (dst(word_of_nat i := table (word_of_nat i)))
     = (None, \<lambda>b. if Suc i \<le> unat b then table b else (dst(word_of_nat i := table (word_of_nat i))) b)"
    by (intro Suc.hyps) simp_all
  with i show ?case
    by (simp add: upt_conv_Cons eq)
qed

lemma round_trip_seq_gob: "round_trip seq_gob"
  using decode_from_map [of 0] by (auto simp: round_trip_def seq_gob_def seq_Decode_def)


lemma Save_Restore:
  assumes "round_trip g" and "Save g a p fs = (None, fs')"
  shows "Restore g x p fs' = (None, x\<lparr>frequency := frequency a, size := size x + sum_frequency a\<rparr>)"
proof -
  from assms(2) obtain written where
    enc: "Encode g (frequency a) = (None, written)" and
    fs': "fs' = fs\<lparr>os_Open := (os_Open fs)(p := Inr written)\<rparr>"
    by (auto simp: Save_def split: option.splits prod.splits)
  from assms(1) enc have "Decode g written (frequency x) = (None, frequency a)"
    by (simp add: round_trip_def)
  then show ?thesis
    by (simp add: Restore_def fs' sum_frequency_def sum_from_shift [of "size x"])
qed

lemma size_Feed_New: "size (Feed NewAnalyzer xs) = word_of_nat (length xs)"
  by (simp add: size_Feed NewAnalyzer_def)

lemma sum_frequency_Feed_New: "sum_frequency (Feed NewAnalyzer xs) = word_of_nat (length xs)"
  by (simp add: sum_frequency_Feed sum_frequency_NewAnalyzer)

lemma Save_seq_gob_fs0: "fst (Save seq_gob a ''model.gob'' fs0) = None"
  by (simp add: Save_def seq_gob_def fs0_def)

lemma Save_seq_gob_fs0_pair:
  "Save seq_gob a ''model.gob'' fs0 = (None, snd (Save seq_gob a ''model.gob'' fs0))"
  using Save_seq_gob_fs0 [of a] by (cases "Save seq_gob a ''model.gob'' fs0") simp

lemma fed_once_size: "size fed_once = 1"
  unfolding fed_once_def size_Feed_New by simp

lemma fed_once_sum: "sum_frequency fed_once = 1"
  unfolding fed_once_def sum_frequency_Feed_New by simp

lemma self_restored_eq:
  "self_restored = fed_once\<lparr>frequency := frequency fed_once, size := 2\<rparr>"
  using Save_Restore [OF round_trip_seq_gob Save_seq_gob_fs0_pair, of fed_once fed_once]
  by (simp add: self_restored_def fed_once_size fed_once_sum)

text \<open>
  C1. After any completed operation, size equals the sum of the 256 entries of frequency;
  in particular after a successful Restore, whatever the Analyzer held before. The code of
  Restore adds the restored counters onto the size it finds: an Analyzer that was fed one
  byte, then saved and restored into itself, both without error, has size 2 over counters
  that sum to 1.
\<close>

theorem Restore_adds_to_old_size:
  "fst (Save seq_gob fed_once ''model.gob'' fs0) = None \<and>
   fst (Restore seq_gob fed_once ''model.gob'' (snd (Save seq_gob fed_once ''model.gob'' fs0))) = None \<and>
   size self_restored = 2 \<and> sum_frequency self_restored = 1"
proof -
  have "Restore seq_gob fed_once ''model.gob'' (snd (Save seq_gob fed_once ''model.gob'' fs0)) =
      (None, fed_once\<lparr>frequency := frequency fed_once, size := size fed_once + sum_frequency fed_once\<rparr>)"
    by (rule Save_Restore [OF round_trip_seq_gob Save_seq_gob_fs0_pair])
  moreover have "sum_frequency self_restored = 1"
    using fed_once_sum by (simp add: self_restored_eq sum_frequency_def)
  ultimately show ?thesis
    by (simp add: Save_seq_gob_fs0 self_restored_eq)
qed

text \<open>
  C2, as stated: if Restore returns an error, frequency and size are as before the call.
  With a file whose stream ends after its first integer, Restore into the Analyzer that
  was fed one byte returns the decoder's error, and the decoder has stored that integer in
  the live table before it failed.
\<close>

theorem Restore_error_changes_table:
  "fst (Restore seq_gob fed_once ''model.gob'' fs_short) \<noteq> None \<and>
   frequency (snd (Restore seq_gob fed_once ''model.gob'' fs_short)) \<noteq> frequency fed_once"
proof -
  have "frequency fed_once 0 = 0"
    by (simp add: fed_once_def frequency_Feed NewAnalyzer_def del: Feed.simps)
  then have "((frequency fed_once)(0 := 7)) 0 \<noteq> frequency fed_once 0"
    by simp
  then have "(frequency fed_once)(0 := 7) \<noteq> frequency fed_once"
    by metis
  then show ?thesis
    by (simp add: Restore_def seq_gob_def seq_Decode_def fs_short_def)
qed

text \<open>
  C2, amended: if Restore returns an error, size is as before the call; when opening the
  file failed the frequency table is as before too; when decoding failed the table is what
  the decoder left in it.
\<close>

theorem Restore_error_state:
  assumes "Restore g a p fs = (Some err, a')"
  shows "size a' = size a \<and>
         (case os_Open fs p of
            Inl e \<Rightarrow> frequency a' = frequency a
          | Inr file \<Rightarrow> frequency a' = snd (Decode g file (frequency a)))"
  using assms by (auto simp: Restore_def split: sum.splits prod.splits option.splits)

theorem Restore_error_state_witness:
  "Restore seq_gob fed_once ''absent'' fs0 = (Some (Error ''no such file''), fed_once) \<and>
   Restore seq_gob fed_once ''model.gob'' fs_short =
     (Some (Error ''length exceeds input size''), fed_once\<lparr>frequency := (frequency fed_once)(0 := 7)\<rparr>) \<and>
   size (fed_once\<lparr>frequency := (frequency fed_once)(0 := 7)\<rparr>) = size fed_once \<and>
   frequency (fed_once\<lparr>frequency := (frequency fed_once)(0 := 7)\<rparr>) =
     snd (Decode seq_gob [7] (frequency fed_once))"
proof -
  have r1: "Restore seq_gob fed_once ''absent'' fs0 = (Some (Error ''no such file''), fed_once)"
    by (simp add: Restore_def fs0_def)
  have r2: "Restore seq_gob fed_once ''model.gob'' fs_short =
      (Some (Error ''length exceeds input size''), fed_once\<lparr>frequency := (frequency fed_once)(0 := 7)\<rparr>)"
    by (simp add: Restore_def seq_gob_def seq_Decode_def fs_short_def)
  have o: "os_Open fs_short ''model.gob'' = Inr [7]"
    by (simp add: fs_short_def)
  from r1 r2 Restore_error_state [OF r1] Restore_error_state [OF r2] show ?thesis
    by (simp add: o)
qed

text \<open>
  What holds of the round trip for every Analyzer a: if Save succeeds and a fresh Analyzer
  b restores the file successfully (the codec returning what was encoded), b has a's
  counters entry for entry and b's size is the sum of a's counters; and Save depends on the
  counters only, not on size.
\<close>

lemma Save_Restore_fresh:
  assumes "round_trip g"
    and "Save g a p fs = (None, fs')"
    and "Restore g NewAnalyzer p fs' = (None, b)"
  shows "frequency b = frequency a" and "size b = sum_frequency a"
    and "Save g (a\<lparr>size := s\<rparr>) p fs = Save g a p fs"
proof -
  from Save_Restore [OF assms(1) assms(2), of NewAnalyzer] assms(3)
  have "b = NewAnalyzer\<lparr>frequency := frequency a, size := size NewAnalyzer + sum_frequency a\<rparr>"
    by simp
  then show "frequency b = frequency a" and "size b = sum_frequency a"
    by (simp_all add: NewAnalyzer_def)
  show "Save g (a\<lparr>size := s\<rparr>) p fs = Save g a p fs"
    by (simp add: Save_def split: option.splits)
qed

text \<open>
  So b's size is a's size whenever a's size is the sum of a's counters, as it is after
  any sequence of Feed calls on a fresh Analyzer.
\<close>

lemma Save_Restore_trained:
  assumes "round_trip g"
    and "Save g (Feed NewAnalyzer S) p fs = (None, fs')"
    and "Restore g NewAnalyzer p fs' = (None, b)"
  shows "frequency b = frequency (Feed NewAnalyzer S)" and "size b = size (Feed NewAnalyzer S)"
  using Save_Restore_fresh(1,2) [OF assms] by (simp_all add: size_Feed_New sum_frequency_Feed_New)

text \<open>
  C5. For every Analyzer a and every path, if a.Save succeeds and a fresh Analyzer b
  restores the file successfully, b has a's counters and a's size. The code breaks the
  second part on an Analyzer that Restore has left with a size that is not the sum of its
  counters: the Analyzer that was fed one byte, saved and restored into itself has size 2;
  when it is saved again and the file restored into a fresh Analyzer, both without error,
  the fresh one has the same counters and size 1.
\<close>

theorem round_trip_size_differs:
  "fst (Save seq_gob self_restored ''model.gob'' fs0) = None \<and>
   fst (Restore seq_gob NewAnalyzer ''model.gob'' (snd (Save seq_gob self_restored ''model.gob'' fs0))) = None \<and>
   frequency (snd (Restore seq_gob NewAnalyzer ''model.gob'' (snd (Save seq_gob self_restored ''model.gob'' fs0))))
     = frequency self_restored \<and>
   size (snd (Restore seq_gob NewAnalyzer ''model.gob'' (snd (Save seq_gob self_restored ''model.gob'' fs0))))
     = 1 \<and>
   size self_restored = 2"
proof -
  have sm: "sum_frequency self_restored = 1"
    using fed_once_sum by (simp add: self_restored_eq sum_frequency_def)
  have "Restore seq_gob NewAnalyzer ''model.gob'' (snd (Save seq_gob self_restored ''model.gob'' fs0)) =
      (None, NewAnalyzer\<lparr>frequency := frequency self_restored,
         size := size NewAnalyzer + sum_frequency self_restored\<rparr>)"
    by (rule Save_Restore [OF round_trip_seq_gob Save_seq_gob_fs0_pair])
  then show ?thesis
    by (simp add: Save_seq_gob_fs0 sm NewAnalyzer_def) (simp add: self_restored_eq)
qed

lemma Score_at_eq:
  assumes "wf_store h" and "cells h a = Some x"
  shows "\<exists>h'. Score_at a contents h = Some (Score x contents, h') \<and> cells h' a = Some x"
proof -
  from assms have "a < next_ref h"
    by (simp add: wf_store_def)
  then have "a \<noteq> next_ref h"
    by simp
  with assms(2) show ?thesis
    by (simp add: Score_at_def NewAnalyzer_at_def Feed_at_def Score_def)
qed

text \<open>
  C9. Score, ScoreString and Save leave the receiver's frequency table and size as they
  were: Score feeds an Analyzer of its own, at a new address, and Save only reads.
\<close>

theorem receiver_unchanged:
  assumes "wf_store h" and "cells h a = Some x"
  shows "(\<exists>h'. Score_at a contents h = Some (Score x contents, h') \<and> cells h' a = Some x) \<and>
         (\<exists>h'. ScoreString_at a text h = Some (ScoreString x text, h') \<and> cells h' a = Some x) \<and>
         (\<exists>h'. Save_at g a p fs h = Some (Save g x p fs, h') \<and> cells h' a = Some x)"
proof (intro conjI)
  show "\<exists>h'. Score_at a contents h = Some (Score x contents, h') \<and> cells h' a = Some x"
    using assms by (rule Score_at_eq)
  show "\<exists>h'. ScoreString_at a text h = Some (ScoreString x text, h') \<and> cells h' a = Some x"
    unfolding ScoreString_at_def ScoreString_def using assms by (rule Score_at_eq)
  show "\<exists>h'. Save_at g a p fs h = Some (Save g x p fs, h') \<and> cells h' a = Some x"
    using assms(2) by (simp add: Save_at_def Save_def split: option.splits)
qed

theorem receiver_unchanged_witness:
  "wf_store (snd (NewAnalyzer_at empty_store)) \<and>
   cells (snd (NewAnalyzer_at empty_store)) 0 = Some NewAnalyzer \<and>
   (\<exists>h'. Score_at 0 [120] (snd (NewAnalyzer_at empty_store)) = Some (Score NewAnalyzer [120], h') \<and>
      cells h' 0 = Some NewAnalyzer) \<and>
   (\<exists>h'. ScoreString_at 0 ''x'' (snd (NewAnalyzer_at empty_store)) =
        Some (ScoreString NewAnalyzer ''x'', h') \<and> cells h' 0 = Some NewAnalyzer) \<and>
   (\<exists>h'. Save_at seq_gob 0 ''model.gob'' fs0 (snd (NewAnalyzer_at empty_store)) =
        Some (Save seq_gob NewAnalyzer ''model.gob'' fs0, h') \<and> cells h' 0 = Some NewAnalyzer)"
proof -
  have w: "wf_store (snd (NewAnalyzer_at empty_store))"
    by (simp add: wf_store_def NewAnalyzer_at_def empty_store_def)
  have c: "cells (snd (NewAnalyzer_at empty_store)) 0 = Some NewAnalyzer"
    by (simp add: NewAnalyzer_at_def empty_store_def)
  from w c receiver_unchanged [OF w c, of "[120]" "''x''" seq_gob "''model.gob''" fs0]
  show ?thesis
    by blast
qed

section \<open>Rounding\<close>

text \<open>
  What is used of rounding: it is monotone, keeps the numbers of the format (among them its
  own results), and from the smallest normal number on its relative error is at most
  \<open>2 powi -53\<close>.
\<close>

lemma powi_neg: "0 \<le> b \<Longrightarrow> 2 powi (- b) = (1::rat) / 2 ^ nat b"
  by (simp add: power_int_minus power_int_def field_simps)

lemma powi_nonneg: "0 \<le> b \<Longrightarrow> 2 powi b = (2::rat) ^ nat b"
  by (simp add: power_int_def)

lemma flog2_bounds:
  assumes "0 < q"
  shows "2 powi (flog2 q) \<le> q" and "q < 2 powi (flog2 q + 1)"
proof -
  show "2 powi (flog2 q) \<le> q"
  proof (cases "1 \<le> q")
    case True
    then have n: "0 < \<lfloor>q\<rfloor>" by simp
    from bitlen_bounds [OF n] have "2 ^ nat (bitlen \<lfloor>q\<rfloor> - 1) \<le> \<lfloor>q\<rfloor>" by simp
    then have "(of_int (2 ^ nat (bitlen \<lfloor>q\<rfloor> - 1)) :: rat) \<le> of_int \<lfloor>q\<rfloor>"
      by (simp only: of_int_le_iff)
    also have "\<dots> \<le> q" by simp
    finally have "(2::rat) ^ nat (bitlen \<lfloor>q\<rfloor> - 1) \<le> q" by simp
    moreover have "1 \<le> bitlen \<lfloor>q\<rfloor>"
      using n bitlen_bounds [OF n] by (cases "bitlen \<lfloor>q\<rfloor> \<le> 0") auto
    ultimately show ?thesis using True
      by (simp add: flog2_def powi_nonneg)
  next
    case False
    with assms have r: "1 < 1 / q" by simp
    define m where "m = \<lceil>1 / q\<rceil> - 1"
    have m: "0 < m" "of_int m < 1 / q" "1 / q \<le> of_int m + 1"
      using r ceiling_correct [of "1 / q"] by (simp_all add: m_def less_ceiling_iff)
    from bitlen_bounds [OF m(1)] have "m + 1 \<le> 2 ^ nat (bitlen m)" by simp
    then have "(of_int (m + 1) :: rat) \<le> of_int (2 ^ nat (bitlen m))"
      by (simp only: of_int_le_iff)
    with m(3) have "1 / q \<le> 2 ^ nat (bitlen m)" by simp
    with assms have "1 / 2 ^ nat (bitlen m) \<le> q"
      by (simp add: field_simps)
    then show ?thesis using False powi_neg [OF bitlen_nonneg [of m]]
      by (simp add: flog2_def m_def [symmetric])
  qed
  show "q < 2 powi (flog2 q + 1)"
  proof (cases "1 \<le> q")
    case True
    then have n: "0 < \<lfloor>q\<rfloor>" by simp
    from bitlen_bounds [OF n] have "\<lfloor>q\<rfloor> + 1 \<le> 2 ^ nat (bitlen \<lfloor>q\<rfloor>)" by simp
    then have "(of_int (\<lfloor>q\<rfloor> + 1) :: rat) \<le> of_int (2 ^ nat (bitlen \<lfloor>q\<rfloor>))"
      by (simp only: of_int_le_iff)
    moreover have "q < of_int (\<lfloor>q\<rfloor> + 1)"
      by linarith
    ultimately have "q < 2 ^ nat (bitlen \<lfloor>q\<rfloor>)" by simp
    then show ?thesis using True bitlen_nonneg [of "\<lfloor>q\<rfloor>"]
      by (simp add: flog2_def powi_nonneg)
  next
    case False
    with assms have r: "1 < 1 / q" by simp
    define m where "m = \<lceil>1 / q\<rceil> - 1"
    have m: "0 < m" "of_int m < 1 / q" "1 / q \<le> of_int m + 1"
      using r ceiling_correct [of "1 / q"] by (simp_all add: m_def less_ceiling_iff)
    have b: "1 \<le> bitlen m"
      using m(1) bitlen_bounds [OF m(1)] by (cases "bitlen m \<le> 0") auto
    from bitlen_bounds [OF m(1)] have "2 ^ nat (bitlen m - 1) \<le> m" by simp
    then have "(of_int (2 ^ nat (bitlen m - 1)) :: rat) \<le> of_int m"
      by (simp only: of_int_le_iff)
    then have "(2::rat) ^ nat (bitlen m - 1) \<le> of_int m"
      by simp
    with m(2) have "2 ^ nat (bitlen m - 1) < 1 / q" by linarith
    with assms have "q < 1 / 2 ^ nat (bitlen m - 1)"
      by (simp add: field_simps)
    moreover have "2 powi (- bitlen m + 1) = (1::rat) / 2 ^ nat (bitlen m - 1)"
      using powi_neg [of "bitlen m - 1"] b by simp
    ultimately show ?thesis using False
      by (simp add: flog2_def m_def [symmetric])
  qed
qed

lemma round_even_of_int: "round_even (of_int n) = n"
  by (simp add: round_even_def)

lemma round_even_lower: "\<lfloor>x\<rfloor> \<le> round_even x"
  by (simp add: round_even_def Let_def)

lemma round_even_upper: "round_even x \<le> \<lfloor>x\<rfloor> + 1"
  by (simp add: round_even_def Let_def)

lemma round_even_error: "\<bar>of_int (round_even x) - x\<bar> \<le> 1 / 2"
proof -
  have "of_int \<lfloor>x\<rfloor> \<le> x" "x < of_int \<lfloor>x\<rfloor> + 1"
    by linarith+
  then show ?thesis
    by (auto simp: round_even_def Let_def abs_le_iff)
qed

lemma round_even_mono:
  assumes "x \<le> y"
  shows "round_even x \<le> round_even y"
proof (cases "\<lfloor>x\<rfloor> = \<lfloor>y\<rfloor>")
  case True
  with assms show ?thesis
    by (auto simp: round_even_def Let_def)
next
  case False
  with assms have "\<lfloor>x\<rfloor> + 1 \<le> \<lfloor>y\<rfloor>"
    using floor_mono [OF assms] by linarith
  with round_even_upper [of x] round_even_lower [of y] show ?thesis
    by linarith
qed

lemma round_even_nonneg: "0 \<le> x \<Longrightarrow> 0 \<le> round_even x"
  using round_even_mono [of 0 x] round_even_of_int [of 0] by simp

lemma p2_pos: "0 < (2::rat) powi a"
  by simp

lemma p2_mono: "a \<le> b \<Longrightarrow> (2::rat) powi a \<le> 2 powi b"
  by (rule power_int_increasing) simp_all

lemma p2_strict: "a < b \<Longrightarrow> (2::rat) powi a < 2 powi b"
  by (rule power_int_strict_increasing) simp_all

lemma p2_less_imp: "(2::rat) powi a < 2 powi b \<Longrightarrow> a < b"
  using p2_mono [of b a] by (cases "a < b") simp_all

lemma p2_le_imp: "(2::rat) powi a \<le> 2 powi b \<Longrightarrow> a \<le> b"
  using p2_strict [of b a] by (cases "a \<le> b") simp_all

lemma p2_add: "(2::rat) powi (a + b) = 2 powi a * 2 powi b"
  by (rule power_int_add) simp

lemma p2_diff: "(2::rat) powi (a - b) = 2 powi a / 2 powi b"
  by (rule power_int_diff) simp

lemma flog2_mono:
  assumes "0 < q" and "q \<le> q'"
  shows "flog2 q \<le> flog2 q'"
proof -
  from assms have "0 < q'" by simp
  from flog2_bounds(1) [OF assms(1)] assms(2) flog2_bounds(2) [OF \<open>0 < q'\<close>]
  have "(2::rat) powi flog2 q < 2 powi (flog2 q' + 1)"
    by linarith
  then show ?thesis
    using p2_less_imp by fastforce
qed

lemma flog2_ge:
  assumes "2 powi k \<le> q"
  shows "k \<le> flog2 q"
proof -
  have "0 < q" using assms p2_pos [of k] by linarith
  from assms flog2_bounds(2) [OF this] have "(2::rat) powi k < 2 powi (flog2 q + 1)"
    by linarith
  then show ?thesis using p2_less_imp by fastforce
qed

lemma ulp_pos: "0 < ulp q"
  by (simp add: ulp_def)

lemma rnd_0: "rnd 0 = 0"
  by (simp add: rnd_def round_even_def)

lemma rnd_nonneg: "0 \<le> q \<Longrightarrow> 0 \<le> rnd q"
  using ulp_pos [of q] round_even_nonneg [of "q / ulp q"] by (simp add: rnd_def)

lemma rnd_error: "\<bar>rnd q - q\<bar> \<le> ulp q / 2"
proof -
  have "rnd q - q = (of_int (round_even (q / ulp q)) - q / ulp q) * ulp q"
    using ulp_pos [of q] by (simp add: rnd_def field_simps)
  then have "\<bar>rnd q - q\<bar> = \<bar>of_int (round_even (q / ulp q)) - q / ulp q\<bar> * ulp q"
    using ulp_pos [of q] by (simp add: abs_mult)
  also have "\<dots> \<le> (1 / 2) * ulp q"
    using ulp_pos [of q] round_even_error [of "q / ulp q"] by (intro mult_right_mono) simp_all
  finally show ?thesis by simp
qed

lemma ulp_normal:
  assumes "2 powi (- 1022) \<le> q"
  shows "ulp q = 2 powi (flog2 q - 52)" and "ulp q \<le> q / 2 ^ 52"
proof -
  from flog2_ge [OF assms] show u: "ulp q = 2 powi (flog2 q - 52)"
    by (simp add: ulp_def max_def)
  have "0 < q" using assms p2_pos [of "- 1022"] by linarith
  have "ulp q = 2 powi flog2 q / 2 ^ 52"
    by (simp add: u p2_diff)
  also have "\<dots> \<le> q / 2 ^ 52"
    using flog2_bounds(1) [OF \<open>0 < q\<close>] by (simp add: divide_right_mono)
  finally show "ulp q \<le> q / 2 ^ 52" .
qed

lemma rnd_rel:
  assumes "2 powi (- 1022) \<le> q"
  shows "\<bar>rnd q - q\<bar> \<le> q / 2 ^ 53"
  using rnd_error [of q] ulp_normal(2) [OF assms] by simp

text \<open>Below the next power of two: the quotient by the spacing stays under \<open>2 ^ 53\<close>.\<close>

lemma div_ulp_less:
  assumes "0 \<le> q"
  shows "q / ulp q < 2 ^ 53"
proof (cases "q = 0")
  case True
  then show ?thesis by simp
next
  case False
  with assms have q: "0 < q" by simp
  define e where "e = max (flog2 q) (- 1022)"
  have "q < 2 powi (flog2 q + 1)" by (rule flog2_bounds(2) [OF q])
  also have "\<dots> \<le> 2 powi (e + 1)"
    by (rule p2_mono) (simp add: e_def)
  also have "\<dots> = 2 powi (e - 52) * 2 ^ 53"
    using p2_add [of "e - 52" 53] by (simp add: add.commute)
  finally have "q < ulp q * 2 ^ 53"
    by (simp add: ulp_def e_def)
  then show ?thesis using ulp_pos [of q]
    by (simp add: field_simps)
qed

lemma div_ulp_ge:
  assumes "2 powi (- 1022) \<le> q"
  shows "2 ^ 52 \<le> q / ulp q"
  using ulp_normal(2) [OF assms] ulp_pos [of q] by (simp add: field_simps)

lemma round_even_le_numeral: "x \<le> of_int n \<Longrightarrow> round_even x \<le> n"
  using round_even_mono [of x "of_int n"] by (simp add: round_even_of_int)

lemma round_even_ge_numeral: "of_int n \<le> x \<Longrightarrow> n \<le> round_even x"
  using round_even_mono [of "of_int n" x] by (simp add: round_even_of_int)

lemma rnd_le_next:
  assumes "0 \<le> q"
  shows "rnd q \<le> 2 ^ 53 * ulp q"
proof -
  have "round_even (q / ulp q) \<le> 2 ^ 53"
    using div_ulp_less [OF assms] by (intro round_even_le_numeral) simp
  then have "(of_int (round_even (q / ulp q)) :: rat) \<le> of_int (2 ^ 53)"
    by (simp only: of_int_le_iff)
  then show ?thesis using ulp_pos [of q]
    by (simp add: rnd_def)
qed

lemma rnd_ge_this:
  assumes "2 powi (- 1022) \<le> q"
  shows "2 ^ 52 * ulp q \<le> rnd q"
proof -
  have "2 ^ 52 \<le> round_even (q / ulp q)"
    using div_ulp_ge [OF assms] by (intro round_even_ge_numeral) simp
  then have "(of_int (2 ^ 52) :: rat) \<le> of_int (round_even (q / ulp q))"
    by (simp only: of_int_le_iff)
  then show ?thesis using ulp_pos [of q]
    by (simp add: rnd_def)
qed

lemma ulp_times:
  "2 ^ 53 * ulp q = 2 powi (max (flog2 q) (- 1022) + 1)"
  "2 ^ 52 * ulp q = 2 powi (max (flog2 q) (- 1022))"
  using p2_add [of "max (flog2 q) (- 1022) - 52" 53] p2_add [of "max (flog2 q) (- 1022) - 52" 52]
  by (simp_all add: ulp_def add.commute mult.commute)

lemma rnd_mono:
  assumes "0 \<le> q" and "q \<le> q'"
  shows "rnd q \<le> rnd q'"
proof (cases "q = 0")
  case True
  with assms rnd_nonneg [of q'] show ?thesis by (simp add: rnd_0)
next
  case False
  with assms have q: "0 < q" and q': "0 < q'" by simp_all
  define e where "e = max (flog2 q) (- 1022)"
  define e' where "e' = max (flog2 q') (- 1022)"
  have le: "e \<le> e'"
    using flog2_mono [OF q assms(2)] by (simp add: e_def e'_def max_def)
  show ?thesis
  proof (cases "e = e'")
    case True
    then have u: "ulp q = ulp q'"
      by (simp add: ulp_def e_def e'_def)
    have "q / ulp q' \<le> q' / ulp q'"
      using assms(2) ulp_pos [of q'] by (simp add: divide_right_mono)
    then have "round_even (q / ulp q') \<le> round_even (q' / ulp q')"
      by (rule round_even_mono)
    then have "(of_int (round_even (q / ulp q')) :: rat) \<le> of_int (round_even (q' / ulp q'))"
      by (simp only: of_int_le_iff)
    then show ?thesis using ulp_pos [of q']
      by (simp add: rnd_def u)
  next
    case False
    with le have lt: "e + 1 \<le> e'" by simp
    then have "- 1022 < e'" by (simp add: e_def)
    then have f: "e' = flog2 q'" by (simp add: e'_def max_def split: if_splits)
    have "2 powi (- 1022) \<le> (2::rat) powi e'"
      using \<open>- 1022 < e'\<close> by (intro p2_mono) simp
    also have "\<dots> \<le> q'"
      unfolding f by (rule flog2_bounds(1) [OF q'])
    finally have n: "2 powi (- 1022) \<le> q'" .
    have "rnd q \<le> 2 powi (e + 1)"
      using rnd_le_next [OF assms(1)] unfolding ulp_times e_def [symmetric] .
    also have "\<dots> \<le> 2 powi e'"
      using lt by (rule p2_mono)
    also have "\<dots> \<le> rnd q'"
      using rnd_ge_this [OF n] unfolding ulp_times e'_def [symmetric] .
    finally show ?thesis .
  qed
qed

text \<open>A magnitude that is a whole multiple of its spacing is kept by rounding.\<close>

lemma rnd_exact:
  assumes "q / ulp q = of_int n"
  shows "rnd q = q"
proof -
  have "rnd q = of_int (round_even (of_int n)) * ulp q"
    unfolding rnd_def assms ..
  also have "\<dots> = of_int n * ulp q"
    by (simp only: round_even_of_int)
  also have "\<dots> = q"
    using ulp_pos [of q] by (simp flip: assms)
  finally show ?thesis .
qed

lemma rnd_multiple:
  assumes "0 \<le> m" and "m \<le> 2 ^ 53" and "- 1074 \<le> k"
  shows "rnd (of_int m * 2 powi k) = of_int m * 2 powi k"
proof (cases "m = 0")
  case True
  then show ?thesis by (simp add: rnd_0)
next
  case False
  with assms have m: "1 \<le> m" by simp
  define q :: rat where "q = of_int m * 2 powi k"
  define e where "e = max (flog2 q) (- 1022)"
  have q: "0 < q" using m by (simp add: q_def)
  have u: "ulp q = 2 powi (e - 52)" by (simp add: ulp_def e_def)
  show ?thesis
  proof (cases "e - 52 \<le> k")
    case True
    have "q / ulp q = of_int m * 2 powi k / 2 powi (e - 52)"
      unfolding u by (simp add: q_def)
    also have "\<dots> = of_int m * 2 powi (k - (e - 52))"
      by (simp only: p2_diff times_divide_eq_right)
    also have "\<dots> = of_int (m * 2 ^ nat (k - (e - 52)))"
      using True by (simp add: powi_nonneg)
    finally have "rnd q = q"
      by (rule rnd_exact)
    then show ?thesis
      by (simp only: q_def)
  next
    case False
    then have lt: "k + 52 < e" by simp
    with assms(3) have f: "e = flog2 q" by (simp add: e_def max_def split: if_splits)
    have "2 powi e \<le> q"
      unfolding f by (rule flog2_bounds(1) [OF q])
    moreover have "q \<le> 2 ^ 53 * 2 powi k"
    proof -
      from assms(2) have "(of_int m :: rat) \<le> of_int (2 ^ 53)"
        by (simp only: of_int_le_iff)
      then show ?thesis by (simp add: q_def)
    qed
    moreover have "2 ^ 53 * (2::rat) powi k = 2 powi (k + 53)"
      using p2_add [of k 53] by (simp add: mult.commute)
    ultimately have "(2::rat) powi e \<le> 2 powi (k + 53)" by simp
    then have "e \<le> k + 53" by (rule p2_le_imp)
    with lt have e: "e = k + 53" by simp
    have "2 powi (k + 53) \<le> q"
      using \<open>2 powi e \<le> q\<close> by (simp add: e)
    with \<open>q \<le> 2 ^ 53 * 2 powi k\<close> \<open>2 ^ 53 * (2::rat) powi k = 2 powi (k + 53)\<close>
    have "q = 2 ^ 53 * 2 powi k" by simp
    moreover have "ulp q = 2 * 2 powi k"
      using p2_add [of 1 k] by (simp add: u e)
    ultimately have "q / ulp q = of_int (2 ^ 52)"
      by simp
    then have "rnd q = q"
      by (rule rnd_exact)
    then show ?thesis
      by (simp only: q_def)
  qed
qed

lemma rnd_idem:
  assumes "0 \<le> q"
  shows "rnd (rnd q) = rnd q"
proof -
  define m where "m = round_even (q / ulp q)"
  define k where "k = max (flog2 q) (- 1022) - 52"
  have "rnd q = of_int m * 2 powi k"
    by (simp add: rnd_def m_def k_def ulp_def)
  moreover have "0 \<le> m"
    unfolding m_def using assms ulp_pos [of q] by (intro round_even_nonneg) simp
  moreover have "m \<le> 2 ^ 53"
    unfolding m_def using div_ulp_less [OF assms] by (intro round_even_le_numeral) simp
  moreover have "- 1074 \<le> k"
    by (simp add: k_def)
  ultimately show ?thesis
    using rnd_multiple [of m k] by simp
qed

lemma rnd_1: "rnd 1 = 1"
  using rnd_multiple [of 1 0] by simp

section \<open>Degenerate scores and the symmetry of relativeDifference\<close>

lemma sint_of_nat64:
  assumes "n < 2 ^ 63"
  shows "sint (word_of_nat n :: int64) = int n"
proof -
  have "sint (word_of_int (int n) :: int64) = signed_take_bit 63 (int n)"
    using sint_sbintrunc' [of "int n", where 'a = 64] by (simp del: of_int_of_nat_eq)
  also have "\<dots> = int n"
    using assms by (intro signed_take_bit_int_eq_self) simp_all
  finally show ?thesis
    by simp
qed

lemma fabs_fl: "fabs (fl s q) = fl False q"
  by (simp add: fl_def Let_def)

lemma fl_0: "fl s 0 = Fin s 0"
  by (simp add: fl_def rnd_0)

lemma fl_1: "fl s 1 = Fin s 1"
  by (simp add: fl_def rnd_1)

lemma fadd_NaN_right: "fadd a NaN = NaN"
  by (cases a) simp_all

lemma fmul_NaN_right: "fmul a NaN = NaN"
  by (cases a) simp_all

lemma fsub_NaN_right: "fsub a NaN = NaN"
  by (simp add: fsub_def fadd_NaN_right)

lemma fsub_NaN_left: "fsub NaN b = NaN"
  by (simp add: fsub_def)

lemma relativeDifference_NaN_right: "relativeDifference r NaN = NaN"
  by (simp add: relativeDifference_def fsub_NaN_right)

lemma relativeDifference_NaN_left: "relativeDifference NaN t = NaN"
  by (simp add: relativeDifference_def fsub_NaN_left)

lemma relativeDifference_Inf_left: "relativeDifference (Inf False) t = NaN"
  by (cases t) (simp_all add: relativeDifference_def fsub_def max_float64_def f0_def)

lemma fdiv_by_zero_nonneg:
  assumes "0 \<le> sint w"
  shows "fdiv (float64_of w) (float64_of 0) = NaN \<or> fdiv (float64_of w) (float64_of 0) = Inf False"
  using assms by (simp add: float64_of_def fl_def Let_def rnd_0)

lemma fdiv_zero_by_zero: "fdiv (float64_of 0) (float64_of 0) = NaN"
  by (simp add: float64_of_def fl_def Let_def rnd_0)

lemma foldl_absorb:
  assumes "\<And>i. f z i = z"
  shows "foldl f z xs = z"
  by (induction xs) (simp_all add: assms)

lemma score_step_NaN: "score_step ref target NaN i = NaN"
  by (simp add: score_step_def Let_def)

lemma scoreFrequencies_first:
  "scoreFrequencies ref target = foldl (score_step ref target) (score_step ref target f0 0) [1..<256]"
  by (simp add: scoreFrequencies_def upt_conv_Cons [of 0 256])

lemma scoreFrequencies_NaN:
  assumes "score_step ref target f0 0 = NaN"
  shows "scoreFrequencies ref target = NaN"
  unfolding scoreFrequencies_first assms by (rule foldl_absorb) (rule score_step_NaN)

lemma score_step_r_degenerate:
  assumes "fdiv (float64_of (frequency ref (word_of_nat i))) (float64_of (size ref)) = NaN \<or>
           fdiv (float64_of (frequency ref (word_of_nat i))) (float64_of (size ref)) = Inf False"
  shows "score_step ref target s i = NaN"
  using assms
  by (auto simp: score_step_def normalized_def Let_def relativeDifference_NaN_left relativeDifference_Inf_left
      fsub_NaN_right fmul_NaN_right fadd_NaN_right)

lemma score_step_t_NaN:
  assumes "fdiv (float64_of (frequency target (word_of_nat i))) (float64_of (size target)) = NaN"
  shows "score_step ref target s i = NaN"
  using assms
  by (simp add: score_step_def normalized_def Let_def relativeDifference_NaN_right
      fsub_NaN_right fmul_NaN_right fadd_NaN_right)

text \<open>
  C8. Score on an Analyzer whose size is 0 (untrained: no counter is negative), whatever
  the content, and Score of the empty byte sequence on any Analyzer, return NaN, not an
  error and not 0.
\<close>

theorem Score_degenerate_NaN:
  "(size a = 0 \<and> (\<forall>b. 0 \<le> sint (frequency a b)) \<longrightarrow> Score a contents = NaN) \<and>
   Score a [] = NaN"
proof
  show "size a = 0 \<and> (\<forall>b. 0 \<le> sint (frequency a b)) \<longrightarrow> Score a contents = NaN"
  proof
    assume h: "size a = 0 \<and> (\<forall>b. 0 \<le> sint (frequency a b))"
    then have "0 \<le> sint (frequency a (word_of_nat 0))" by blast
    from fdiv_by_zero_nonneg [OF this] h
    have "score_step a (Feed NewAnalyzer contents) f0 0 = NaN"
      by (intro score_step_r_degenerate) simp
    then show "Score a contents = NaN"
      unfolding Score_def by (rule scoreFrequencies_NaN)
  qed
  have "score_step a (Feed NewAnalyzer []) f0 0 = NaN"
    by (rule score_step_t_NaN) (simp add: NewAnalyzer_def fdiv_zero_by_zero)
  then show "Score a [] = NaN"
    unfolding Score_def by (rule scoreFrequencies_NaN)
qed

theorem Score_degenerate_NaN_witness:
  "size NewAnalyzer = 0 \<and> (\<forall>b. 0 \<le> sint (frequency NewAnalyzer b)) \<and>
   Score NewAnalyzer [120] = NaN \<and> Score (Feed NewAnalyzer [120]) [] = NaN"
proof -
  have h: "size NewAnalyzer = 0 \<and> (\<forall>b. 0 \<le> sint (frequency NewAnalyzer b))"
    by (simp add: NewAnalyzer_def)
  from h Score_degenerate_NaN [of NewAnalyzer "[120]"]
    Score_degenerate_NaN [of "Feed NewAnalyzer [120]" "[]"]
  show ?thesis
    by blast
qed

lemma sv_not: "sv (\<not> t) y = - sv t y"
  by (simp add: sv_def)

lemma fabs_fsub:
  "fabs (fsub (Fin s x) (Fin t y)) =
     (if sv s x = sv t y then Fin False 0 else fl False \<bar>sv s x - sv t y\<bar>)"
  by (simp add: fsub_def Let_def sv_not fabs_fl)

lemma fabs_fsub_commute:
  "fabs (fsub (Fin s x) (Fin t y)) = fabs (fsub (Fin t y) (Fin s x))"
  unfolding fabs_fsub by (simp add: abs_minus_commute)

lemma max_float64_commute:
  assumes "nonneg_finite a" and "nonneg_finite b" and "\<not> (feq a f0 \<and> feq b f0)"
  shows "max_float64 a b = max_float64 b a"
  using assms
  by (cases a; cases b) (auto simp: max_float64_def sv_def f0_def split: if_splits)

text \<open>
  C10. For all non-negative finite numbers a and b, relativeDifference(a, b) equals
  relativeDifference(b, a).
\<close>

theorem relativeDifference_symmetric:
  assumes "nonneg_finite a" and "nonneg_finite b"
  shows "relativeDifference a b = relativeDifference b a"
proof (cases "feq a f0 \<and> feq b f0")
  case True
  then show ?thesis by (simp add: relativeDifference_def)
next
  case False
  from assms obtain s x t y where ab: "a = Fin s x" "b = Fin t y"
    by (cases a; cases b) simp_all
  have "fabs (fsub a b) = fabs (fsub b a)"
    unfolding ab by (rule fabs_fsub_commute)
  moreover have "max_float64 a b = max_float64 b a"
    using assms False by (rule max_float64_commute)
  ultimately show ?thesis
    using False by (auto simp: relativeDifference_def)
qed

theorem relativeDifference_symmetric_witness:
  "nonneg_finite (Fin False (1 / 4)) \<and> nonneg_finite (Fin False (3 / 4)) \<and>
   relativeDifference (Fin False (1 / 4)) (Fin False (3 / 4)) =
   relativeDifference (Fin False (3 / 4)) (Fin False (1 / 4))"
proof -
  have h: "nonneg_finite (Fin False (1 / 4))" "nonneg_finite (Fin False (3 / 4))"
    by (simp_all add: sv_def)
  from h relativeDifference_symmetric [OF h] show ?thesis
    by blast
qed

section \<open>Disjoint content\<close>

lemma rnd_2_63: "rnd (2 ^ 63) = 2 ^ 63"
  using rnd_multiple [of "2 ^ 52" 11] by simp

lemma rnd_int_le:
  assumes "0 \<le> i" and "i < 2 ^ 63"
  shows "rnd (of_int i) \<le> 2 ^ 63"
proof -
  from assms(2) have "(of_int i :: rat) \<le> of_int (2 ^ 63)"
    by simp
  then have "rnd (of_int i) \<le> rnd (2 ^ 63)"
    using assms(1) by (intro rnd_mono) simp_all
  then show ?thesis
    by (simp only: rnd_2_63)
qed

lemma rnd_ge_1: "1 \<le> q \<Longrightarrow> 1 \<le> rnd q"
  using rnd_mono [of 1 q] by (simp add: rnd_1)

lemma fl_small: "0 \<le> q \<Longrightarrow> rnd q \<le> 2 ^ 64 \<Longrightarrow> fl s q = Fin s (rnd q)"
  by (simp add: fl_def Let_def)

lemma float64_of_nonneg:
  assumes "0 \<le> sint w"
  shows "float64_of w = Fin False (rnd (of_int (sint w)))"
proof -
  have "sint w < 2 ^ 63"
    using sint_lt [of w] by simp
  from rnd_int_le [OF assms this] have "rnd (of_int (sint w)) \<le> 2 ^ 64"
    by simp
  moreover have nn: "0 \<le> (of_int (sint w) :: rat)"
    using assms by (simp only: of_int_0_le_iff)
  ultimately have "fl False (of_int (sint w)) = Fin False (rnd (of_int (sint w)))"
    by (intro fl_small)
  moreover have "\<not> sint w < 0" "\<bar>of_int (sint w) :: rat\<bar> = of_int (sint w)"
    using assms nn by (simp_all only: not_less abs_of_nonneg)
  ultimately show ?thesis
    by (simp only: float64_of_def Let_def)
qed

lemma float64_of_0: "float64_of 0 = f0"
  by (simp add: float64_of_nonneg rnd_0 f0_def)

lemma float64_of_nat:
  assumes "n < 2 ^ 63"
  shows "float64_of (word_of_nat n) = Fin False (rnd (of_nat n))"
  using float64_of_nonneg [of "word_of_nat n"] by (simp add: sint_of_nat64 [OF assms])

lemma fdiv_self:
  assumes "0 < m"
  shows "fdiv (Fin False m) (Fin False m) = f1"
  using assms by (simp add: fl_1 f1_def)

lemma term_only_ref: "fmul f1 (fsub f1 (relativeDifference f1 f0)) = f0"
  by (simp add: f0_def f1_def relativeDifference_def fsub_def sv_def fl_0 fl_1 max_float64_def)

lemma term_only_target: "fmul f0 (fsub f1 (relativeDifference f0 f1)) = f0"
  by (simp add: f0_def f1_def relativeDifference_def fsub_def sv_def fl_0 fl_1 max_float64_def)

lemma term_neither: "fmul f0 (fsub f1 (relativeDifference f0 f0)) = f0"
  by (simp add: f0_def f1_def relativeDifference_def fsub_def sv_def fl_0 fl_1 max_float64_def)

lemma fadd_f0_f0: "fadd f0 f0 = f0"
  by (simp add: f0_def sv_def)

lemma count_list_replicate: "count_list (replicate n x) y = (if x = y then n else 0)"
  by (induction n) auto

lemma Feed_replicate:
  "Feed NewAnalyzer (replicate n x) =
     \<lparr>frequency = (\<lambda>b. if b = x then word_of_nat n else 0), size = word_of_nat n\<rparr>"
  by (auto simp: Feed_eq NewAnalyzer_def count_list_replicate)

text \<open>
  C7. For distinct byte values X and Y, an Analyzer trained only on occurrences of X
  scores content that consists only of occurrences of Y as exactly 0.
\<close>

theorem Score_disjoint_zero:
  assumes "X \<noteq> Y" and "0 < n" and "n < 2 ^ 63" and "0 < m" and "m < 2 ^ 63"
  shows "Score (Feed NewAnalyzer (replicate n X)) (replicate m Y) = f0"
proof -
  define ref where "ref = Feed NewAnalyzer (replicate n X)"
  define target where "target = Feed NewAnalyzer (replicate m Y)"
  have n: "float64_of (word_of_nat n) = Fin False (rnd (of_nat n))" "0 < rnd (of_nat n)"
    using assms(2) float64_of_nat [OF assms(3)] rnd_ge_1 [of "of_nat n"] by simp_all
  have m: "float64_of (word_of_nat m) = Fin False (rnd (of_nat m))" "0 < rnd (of_nat m)"
    using assms(4) float64_of_nat [OF assms(5)] rnd_ge_1 [of "of_nat m"] by simp_all
  have zn: "fdiv (float64_of 0) (float64_of (word_of_nat n)) = f0"
    unfolding n float64_of_0 f0_def using n(2) by (simp add: fl_0)
  have zm: "fdiv (float64_of 0) (float64_of (word_of_nat m)) = f0"
    unfolding m float64_of_0 f0_def using m(2) by (simp add: fl_0)
  have nn: "fdiv (float64_of (word_of_nat n)) (float64_of (word_of_nat n)) = f1"
    unfolding n using n(2) by (rule fdiv_self)
  have mm: "fdiv (float64_of (word_of_nat m)) (float64_of (word_of_nat m)) = f1"
    unfolding m using m(2) by (rule fdiv_self)
  have "score_step ref target f0 i = f0" for i
    using assms(1)
    by (simp add: score_step_def normalized_def ref_def target_def Feed_replicate Let_def zn zm nn mm
        term_only_ref term_only_target term_neither fadd_f0_f0)
  then have "scoreFrequencies ref target = f0"
    unfolding scoreFrequencies_def by (rule foldl_absorb)
  then show ?thesis
    by (simp add: Score_def ref_def target_def)
qed

theorem Score_disjoint_zero_witness:
  "(120::byte) \<noteq> 121 \<and> (0::nat) < 3 \<and> (3::nat) < 2 ^ 63 \<and> (0::nat) < 2 \<and> (2::nat) < 2 ^ 63 \<and>
   Score (Feed NewAnalyzer [120, 120, 120]) [121, 121] = f0"
proof -
  have r: "replicate 3 (120::byte) = [120, 120, 120]" "replicate 2 (121::byte) = [121, 121]"
    by (simp_all add: numeral_eq_Suc)
  have "Score (Feed NewAnalyzer (replicate 3 120)) (replicate 2 121) = f0"
    by (rule Score_disjoint_zero) simp_all
  then show ?thesis
    unfolding r by simp
qed

section \<open>Sums of rounded magnitudes\<close>

text \<open>
  A rounded sum of \<open>k\<close> magnitudes stays within the factors \<open>(1 - u53) ^ k\<close> and
  \<open>(1 + u53) ^ k\<close> of the exact sum, it is monotone in its terms, and while it stays
  below the overflow threshold it is what the additions of the loop compute.
\<close>

lemma u53_bounds: "0 < u53" "u53 < 1"
  by (simp_all add: u53_def)

lemma noz_nonneg: "noz q \<Longrightarrow> 0 \<le> q"
  using p2_pos [of "- 1022"] by (auto simp: noz_def)

lemma noz_add: "noz a \<Longrightarrow> noz b \<Longrightarrow> noz (a + b)"
  using p2_pos [of "- 1022"] by (auto simp: noz_def)

lemma rnd_min_normal: "rnd (2 powi (- 1022)) = 2 powi (- 1022)"
  using rnd_multiple [of 1 "- 1022"] by simp

lemma noz_rnd:
  assumes "noz q"
  shows "noz (rnd q)"
proof (cases "q = 0")
  case True
  then show ?thesis by (simp add: rnd_0 noz_def)
next
  case False
  with assms have "2 powi (- 1022) \<le> q" by (simp add: noz_def)
  then have "rnd (2 powi (- 1022)) \<le> rnd q"
    by (intro rnd_mono) simp_all
  then show ?thesis
    by (simp only: rnd_min_normal noz_def) simp
qed

lemma rnd_bounds:
  assumes "noz q"
  shows "q * (1 - u53) \<le> rnd q" and "rnd q \<le> q * (1 + u53)"
proof -
  have "\<bar>rnd q - q\<bar> \<le> q * u53"
  proof (cases "q = 0")
    case True
    then show ?thesis by (simp add: rnd_0)
  next
    case False
    with assms have "2 powi (- 1022) \<le> q" by (simp add: noz_def)
    from rnd_rel [OF this] show ?thesis by (simp add: u53_def)
  qed
  then show "q * (1 - u53) \<le> rnd q" and "rnd q \<le> q * (1 + u53)"
    by (simp_all add: abs_le_iff algebra_simps)
qed

lemma fsum_append: "fsum s (xs @ ys) = fsum (fsum s xs) ys"
  by (induction xs arbitrary: s) simp_all

lemma fsum_nonneg:
  assumes "0 \<le> s" and "\<forall>x\<in>set xs. 0 \<le> x"
  shows "0 \<le> fsum s xs"
  using assms
proof (induction xs arbitrary: s)
  case Nil
  then show ?case by simp
next
  case (Cons x xs)
  then have "0 \<le> rnd (s + x)" by (intro rnd_nonneg) simp
  with Cons show ?case by simp
qed

lemma fsum_mono:
  assumes "0 \<le> s" and "s \<le> s'" and "list_all2 (\<lambda>x y. 0 \<le> x \<and> x \<le> y) xs ys"
  shows "fsum s xs \<le> fsum s' ys"
  using assms(3,1,2)
proof (induction xs ys arbitrary: s s' rule: list_all2_induct)
  case Nil
  then show ?case by simp
next
  case (Cons x xs y ys)
  have "rnd (s + x) \<le> rnd (s' + y)"
    using Cons by (intro rnd_mono) simp_all
  moreover have "0 \<le> rnd (s + x)"
    using Cons by (intro rnd_nonneg) simp
  ultimately show ?case
    using Cons.IH by simp
qed

lemma fsum_ge_start:
  assumes "rnd s = s" and "0 \<le> s" and "\<forall>x\<in>set xs. 0 \<le> x"
  shows "s \<le> fsum s xs"
  using assms
proof (induction xs arbitrary: s)
  case Nil
  then show ?case by simp
next
  case (Cons x xs)
  have "s = rnd s" using Cons.prems by simp
  also have "\<dots> \<le> rnd (s + x)"
    using Cons.prems by (intro rnd_mono) simp_all
  also have "\<dots> \<le> fsum (rnd (s + x)) xs"
    using Cons.prems by (intro Cons.IH rnd_idem rnd_nonneg) simp_all
  finally show ?case by simp
qed

lemma fsum_upper:
  assumes "noz s" and "\<forall>x\<in>set xs. noz x"
  shows "fsum s xs \<le> (s + sum_list xs) * (1 + u53) ^ length xs"
  using assms
proof (induction xs arbitrary: s)
  case Nil
  then show ?case by simp
next
  case (Cons x xs)
  have nz: "noz (s + x)" using Cons.prems by (simp add: noz_add)
  have sx: "0 \<le> s + x" by (rule noz_nonneg [OF nz])
  have sl: "0 \<le> sum_list xs"
    using Cons.prems by (intro sum_list_nonneg) (simp add: noz_nonneg)
  have "fsum (rnd (s + x)) xs \<le> (rnd (s + x) + sum_list xs) * (1 + u53) ^ length xs"
    using Cons.prems by (intro Cons.IH noz_rnd nz) simp
  also have "\<dots> \<le> ((s + x) * (1 + u53) + sum_list xs * (1 + u53)) * (1 + u53) ^ length xs"
  proof (rule mult_right_mono)
    have "sum_list xs \<le> sum_list xs * (1 + u53)"
      using sl u53_bounds by (simp add: algebra_simps)
    with rnd_bounds(2) [OF nz]
    show "rnd (s + x) + sum_list xs \<le> (s + x) * (1 + u53) + sum_list xs * (1 + u53)"
      by linarith
    show "0 \<le> (1 + u53) ^ length xs"
      using u53_bounds by simp
  qed
  finally show ?case
    by (simp add: algebra_simps)
qed

lemma fsum_lower:
  assumes "noz s" and "\<forall>x\<in>set xs. noz x"
  shows "(s + sum_list xs) * (1 - u53) ^ length xs \<le> fsum s xs"
  using assms
proof (induction xs arbitrary: s)
  case Nil
  then show ?case by simp
next
  case (Cons x xs)
  have nz: "noz (s + x)" using Cons.prems by (simp add: noz_add)
  have sl: "0 \<le> sum_list xs"
    using Cons.prems by (intro sum_list_nonneg) (simp add: noz_nonneg)
  have "((s + x) * (1 - u53) + sum_list xs * (1 - u53)) * (1 - u53) ^ length xs
      \<le> (rnd (s + x) + sum_list xs) * (1 - u53) ^ length xs"
  proof (rule mult_right_mono)
    have "sum_list xs * (1 - u53) \<le> sum_list xs"
      using sl u53_bounds by (simp add: algebra_simps)
    with rnd_bounds(1) [OF nz]
    show "(s + x) * (1 - u53) + sum_list xs * (1 - u53) \<le> rnd (s + x) + sum_list xs"
      by linarith
    show "0 \<le> (1 - u53) ^ length xs"
      using u53_bounds by simp
  qed
  also have "\<dots> \<le> fsum (rnd (s + x)) xs"
    using Cons.prems by (intro Cons.IH noz_rnd nz) simp
  finally show ?case
    by (simp add: algebra_simps)
qed

lemma fadd_nonneg:
  assumes "0 \<le> s" and "0 \<le> x" and "rnd (s + x) < 2 powi 1024"
  shows "fadd (Fin False s) (Fin False x) = Fin False (rnd (s + x))"
  using assms by (simp add: sv_def fl_def Let_def rnd_0)

lemma foldl_fadd_fsum:
  assumes "rnd s = s" and "0 \<le> s" and "\<forall>x\<in>set xs. 0 \<le> x" and "fsum s xs < 2 powi 1024"
  shows "foldl fadd (Fin False s) (map (Fin False) xs) = Fin False (fsum s xs)"
  using assms
proof (induction xs arbitrary: s)
  case Nil
  then show ?case by simp
next
  case (Cons x xs)
  have r: "rnd (rnd (s + x)) = rnd (s + x)" "0 \<le> rnd (s + x)"
    using Cons.prems by (simp_all add: rnd_idem rnd_nonneg)
  have "rnd (s + x) \<le> fsum (rnd (s + x)) xs"
    using r Cons.prems by (intro fsum_ge_start) simp_all
  with Cons.prems have "rnd (s + x) < 2 powi 1024"
    by simp
  with Cons.prems have "fadd (Fin False s) (Fin False x) = Fin False (rnd (s + x))"
    by (intro fadd_nonneg) simp_all
  moreover have "foldl fadd (Fin False (rnd (s + x))) (map (Fin False) xs) =
      Fin False (fsum (rnd (s + x)) xs)"
    using r Cons.prems by (intro Cons.IH) simp_all
  ultimately show ?case
    by simp
qed

section \<open>The range of Score and the score of the training text\<close>

lemma bernoulli_rat:
  fixes x :: rat
  assumes "0 \<le> x" and "x \<le> 1"
  shows "1 - of_nat n * x \<le> (1 - x) ^ n"
proof (induction n)
  case 0
  then show ?case by simp
next
  case (Suc n)
  have p: "0 \<le> (1 - x) ^ n" "0 \<le> 1 - x"
    using assms by simp_all
  show ?case
  proof (cases "1 - of_nat n * x \<le> 0")
    case True
    then have "1 - of_nat (Suc n) * x \<le> 0"
      using assms by (simp add: algebra_simps)
    also have "0 \<le> (1 - x) ^ Suc n"
      using assms by simp
    finally show ?thesis .
  next
    case False
    have "1 - of_nat (Suc n) * x \<le> (1 - x) * (1 - of_nat n * x)"
      using assms by (simp add: algebra_simps)
    also have "\<dots> \<le> (1 - x) * (1 - x) ^ n"
      using Suc p by (intro mult_left_mono)
    finally show ?thesis by simp
  qed
qed

lemma pow_259: "1 - 259 * u53 \<le> (1 - u53) ^ 259"
  using bernoulli_rat [of u53 259] u53_bounds by simp

lemma pow_259_split: "(x::rat) ^ 259 = x ^ 258 * x"
proof -
  have "(259::nat) = Suc 258" by simp
  then show ?thesis by (simp only: power_Suc2)
qed

lemma pow_pair: "(1 + u53) ^ n * (1 - u53) ^ n \<le> 1"
proof -
  have "(1 + u53) ^ n * (1 - u53) ^ n = ((1 + u53) * (1 - u53)) ^ n"
    by (simp add: power_mult_distrib)
  also have "\<dots> \<le> 1"
  proof (rule power_le_one)
    have "u53 * u53 \<le> 1"
      using u53_bounds by (intro mult_le_one) simp_all
    then show "0 \<le> (1 + u53) * (1 - u53)"
      by (simp add: algebra_simps)
    have "0 \<le> u53 * u53"
      by simp
    then show "(1 + u53) * (1 - u53) \<le> 1"
      by (simp add: algebra_simps)
  qed
  finally show ?thesis .
qed

lemma num_lower: "1 - 1 / 2 ^ 44 \<le> (1 - u53) ^ 258 / (1 + u53)"
proof -
  have "1 - 1 / 2 ^ 44 \<le> 1 - 259 * u53"
    by (simp add: u53_def)
  also have "\<dots> \<le> (1 - u53) ^ 259"
    by (rule pow_259)
  also have "\<dots> = (1 - u53) ^ 258 * (1 - u53)"
    by (rule pow_259_split)
  also have "\<dots> \<le> (1 - u53) ^ 258 * (1 / (1 + u53))"
  proof (rule mult_left_mono)
    have "(1 - u53) * (1 + u53) \<le> 1"
      by (simp add: algebra_simps)
    then show "1 - u53 \<le> 1 / (1 + u53)"
      using u53_bounds by (simp add: pos_le_divide_eq)
    show "0 \<le> (1 - u53) ^ 258"
      using u53_bounds by simp
  qed
  finally show ?thesis by simp
qed

lemma num_upper: "(1 + u53) ^ 258 / (1 - u53) \<le> 1 + 1 / 2 ^ 44"
proof -
  define A where "A = (1 + u53) ^ 258"
  define B where "B = (1 - u53) ^ 258"
  have c: "0 < 1 - u53" using u53_bounds by simp
  have B: "0 < B" unfolding B_def using c by simp
  have A: "0 \<le> A" unfolding A_def using u53_bounds by simp
  have AB: "A * B \<le> 1" unfolding A_def B_def by (rule pow_pair)
  have L: "1 - 259 * u53 \<le> B * (1 - u53)"
    using pow_259 by (simp only: B_def pow_259_split)
  have Lpos: "0 < 1 - 259 * u53" by (simp add: u53_def)
  have T: "1 \<le> (1 + 1 / 2 ^ 44) * (1 - 259 * u53)"
    by (simp add: u53_def)
  have "A * (1 - 259 * u53) \<le> A * (B * (1 - u53))"
    using L A by (rule mult_left_mono)
  also have "\<dots> = (A * B) * (1 - u53)" by simp
  also have "\<dots> \<le> 1 * (1 - u53)"
    using AB c by (intro mult_right_mono) simp_all
  finally have "A * (1 - 259 * u53) \<le> 1 - u53" by simp
  then have "A / (1 - u53) \<le> 1 / (1 - 259 * u53)"
    using c Lpos by (simp add: field_simps)
  also have "\<dots> \<le> 1 + 1 / 2 ^ 44"
    using T Lpos by (simp add: field_simps)
  finally show ?thesis by (simp add: A_def)
qed

lemma noz_of_int: "0 \<le> c \<Longrightarrow> noz (of_int c)"
proof (cases "c = 0")
  case True
  then show ?thesis by (simp add: noz_def)
next
  case False
  assume "0 \<le> c"
  with False have "1 \<le> c" by simp
  then have "(1::rat) \<le> of_int c" by simp
  moreover have "(2::rat) powi (- 1022) \<le> 1"
    using p2_mono [of "- 1022" 0] by simp
  ultimately show ?thesis
    unfolding noz_def by linarith
qed

lemma rnd_size:
  assumes "0 < n" and "n < 2 ^ 63"
  shows "1 \<le> rnd (of_int n)" and "rnd (of_int n) \<le> 2 ^ 63"
proof -
  from assms(1) have "(1::rat) \<le> of_int n" by simp
  then show "1 \<le> rnd (of_int n)" by (rule rnd_ge_1)
  from assms show "rnd (of_int n) \<le> 2 ^ 63" by (intro rnd_int_le) simp_all
qed

lemma quotient_facts:
  assumes "0 \<le> c" and "c < 2 ^ 63" and "0 < n" and "n < 2 ^ 63"
  shows "0 \<le> rnd (of_int c) / rnd (of_int n)"
    and "rnd (of_int c) / rnd (of_int n) \<le> 2 ^ 63"
    and "noz (rnd (of_int c) / rnd (of_int n))"
proof -
  define C where "C = rnd (of_int c)"
  define N where "N = rnd (of_int n)"
  have C: "0 \<le> C" "C \<le> 2 ^ 63"
    unfolding C_def using assms rnd_nonneg [of "of_int c"] rnd_int_le [OF assms(1,2)]
    by simp_all
  have N: "1 \<le> N" "N \<le> 2 ^ 63"
    unfolding N_def using rnd_size [OF assms(3,4)] by simp_all
  show "0 \<le> rnd (of_int c) / rnd (of_int n)"
    using C N by (simp add: C_def [symmetric] N_def [symmetric])
  have "C / N \<le> C / 1"
    using C N by (intro divide_left_mono) simp_all
  with C show "rnd (of_int c) / rnd (of_int n) \<le> 2 ^ 63"
    by (simp add: C_def [symmetric] N_def [symmetric])
  show "noz (rnd (of_int c) / rnd (of_int n))"
  proof (cases "c = 0")
    case True
    then show ?thesis by (simp add: rnd_0 noz_def)
  next
    case False
    with assms have "(1::rat) \<le> of_int c" by simp
    then have "1 \<le> C" unfolding C_def by (rule rnd_ge_1)
    have "(2::rat) powi (- 1022) \<le> 2 powi (- 63)"
      by (rule p2_mono) simp
    also have "\<dots> = 1 / 2 ^ 63"
      using powi_neg [of 63] by simp
    also have "\<dots> \<le> 1 / N"
      using N by (intro divide_left_mono) simp_all
    also have "\<dots> \<le> C / N"
      using \<open>1 \<le> C\<close> N by (intro divide_right_mono) simp_all
    finally show ?thesis
      by (simp add: noz_def C_def N_def)
  qed
qed

lemma nfreq_facts:
  assumes "0 \<le> c" and "c < 2 ^ 63" and "0 < n" and "n < 2 ^ 63"
  shows "0 \<le> nfreq c n" and "rnd (nfreq c n) = nfreq c n" and "nfreq c n \<le> 2 ^ 63"
    and "noz (nfreq c n)"
proof -
  note q = quotient_facts [OF assms]
  show "0 \<le> nfreq c n"
    unfolding nfreq_def using q(1) by (rule rnd_nonneg)
  show "rnd (nfreq c n) = nfreq c n"
    unfolding nfreq_def using q(1) by (rule rnd_idem)
  have "rnd (rnd (of_int c) / rnd (of_int n)) \<le> rnd (2 ^ 63)"
    using q(1,2) by (rule rnd_mono)
  then show "nfreq c n \<le> 2 ^ 63"
    by (simp only: nfreq_def rnd_2_63)
  show "noz (nfreq c n)"
    unfolding nfreq_def using q(3) by (rule noz_rnd)
qed

lemma nfreq_0: "nfreq 0 n = 0"
  by (simp add: nfreq_def rnd_0)

lemma nfreq_upper:
  assumes "0 \<le> c" and "c < 2 ^ 63" and "0 < n" and "n < 2 ^ 63"
  shows "nfreq c n \<le> of_int c / of_int n * ((1 + u53) ^ 2 / (1 - u53))"
proof -
  define C :: rat where "C = of_int c"
  define N :: rat where "N = of_int n"
  have CN: "0 \<le> C" "0 < N" using assms by (simp_all add: C_def N_def)
  have u: "0 < 1 - u53" "0 < 1 + u53" using u53_bounds by simp_all
  have nC: "noz C" and nN: "noz N"
    unfolding C_def N_def using assms by (simp_all add: noz_of_int)
  have rN: "0 < N * (1 - u53)" using CN u by simp
  have "rnd C / rnd N \<le> (C * (1 + u53)) / (N * (1 - u53))"
  proof (rule frac_le)
    show "0 \<le> C * (1 + u53)" using CN u by simp
    show "rnd C \<le> C * (1 + u53)" by (rule rnd_bounds(2) [OF nC])
    show "0 < N * (1 - u53)" by (rule rN)
    show "N * (1 - u53) \<le> rnd N" by (rule rnd_bounds(1) [OF nN])
  qed
  moreover have "rnd (rnd C / rnd N) \<le> (rnd C / rnd N) * (1 + u53)"
    using quotient_facts(3) [OF assms] unfolding C_def N_def by (rule rnd_bounds(2))
  ultimately have "rnd (rnd C / rnd N) \<le> (C * (1 + u53)) / (N * (1 - u53)) * (1 + u53)"
    using u by (meson mult_right_mono order_trans less_imp_le)
  also have "\<dots> = C / N * ((1 + u53) ^ 2 / (1 - u53))"
    by (simp add: power2_eq_square)
  finally show ?thesis
    by (simp add: nfreq_def C_def N_def)
qed

lemma nfreq_lower:
  assumes "0 \<le> c" and "c < 2 ^ 63" and "0 < n" and "n < 2 ^ 63"
  shows "of_int c / of_int n * ((1 - u53) ^ 2 / (1 + u53)) \<le> nfreq c n"
proof -
  define C :: rat where "C = of_int c"
  define N :: rat where "N = of_int n"
  have CN: "0 \<le> C" "0 < N" using assms by (simp_all add: C_def N_def)
  have u: "0 < 1 - u53" "0 < 1 + u53" using u53_bounds by simp_all
  have nC: "noz C" and nN: "noz N"
    unfolding C_def N_def using assms by (simp_all add: noz_of_int)
  have rN: "0 < rnd N"
    using rnd_size(1) [OF assms(3,4)] by (simp add: N_def)
  have "(C * (1 - u53)) / (N * (1 + u53)) \<le> rnd C / rnd N"
  proof (rule frac_le)
    show "0 \<le> rnd C" using CN by (intro rnd_nonneg)
    show "C * (1 - u53) \<le> rnd C" by (rule rnd_bounds(1) [OF nC])
    show "0 < rnd N" by (rule rN)
    show "rnd N \<le> N * (1 + u53)" by (rule rnd_bounds(2) [OF nN])
  qed
  then have "(C * (1 - u53)) / (N * (1 + u53)) * (1 - u53) \<le> (rnd C / rnd N) * (1 - u53)"
    using u by (intro mult_right_mono) simp_all
  also have "\<dots> \<le> rnd (rnd C / rnd N)"
    using quotient_facts(3) [OF assms] unfolding C_def N_def by (rule rnd_bounds(1))
  finally have "(C * (1 - u53)) / (N * (1 + u53)) * (1 - u53) \<le> rnd (rnd C / rnd N)" .
  moreover have "(C * (1 - u53)) / (N * (1 + u53)) * (1 - u53) = C / N * ((1 - u53) ^ 2 / (1 + u53))"
    by (simp add: power2_eq_square)
  ultimately have "C / N * ((1 - u53) ^ 2 / (1 + u53)) \<le> rnd (rnd C / rnd N)"
    by (simp only:)
  then show ?thesis
    by (simp only: nfreq_def C_def N_def)
qed

lemma normalized_nfreq:
  assumes "0 \<le> sint (frequency a (word_of_nat i))" and "0 < sint (size a)"
  shows "normalized a i = Fin False (nfreq (sint (frequency a (word_of_nat i))) (sint (size a)))"
proof -
  define c where "c = sint (frequency a (word_of_nat i))"
  define n where "n = sint (size a)"
  have b: "0 \<le> c" "c < 2 ^ 63" "0 < n" "n < 2 ^ 63"
    using assms sint_lt [of "frequency a (word_of_nat i)"] sint_lt [of "size a"]
    by (simp_all add: c_def n_def)
  have N: "rnd (of_int n) \<noteq> 0"
    using rnd_size(1) [OF b(3,4)] by simp
  have "normalized a i = fdiv (Fin False (rnd (of_int c))) (Fin False (rnd (of_int n)))"
    using assms by (simp only: normalized_def c_def n_def float64_of_nonneg less_imp_le)
  also have "\<dots> = fl False (rnd (of_int c) / rnd (of_int n))"
    using N by simp
  also have "\<dots> = Fin False (nfreq c n)"
    unfolding nfreq_def using quotient_facts(1) [OF b] nfreq_facts(3) [OF b]
    by (intro fl_small) (simp_all add: nfreq_def)
  finally show ?thesis
    by (simp only: c_def n_def)
qed

lemma feq_zero: "feq (Fin False x) f0 = (x = 0)"
  by (simp add: f0_def sv_def)

lemma max_float64_nonneg: "max_float64 (Fin False x) (Fin False y) = Fin False (max x y)"
  by (simp add: max_float64_def sv_def max_def)

lemma fabs_fsub_nonneg:
  "fabs (fsub (Fin False x) (Fin False y)) = (if x = y then Fin False 0 else fl False \<bar>x - y\<bar>)"
  by (simp add: fabs_fsub sv_def)

lemma relativeDifference_range:
  assumes "0 \<le> x" and "rnd x = x" and "x \<le> 2 ^ 63"
    and "0 \<le> y" and "rnd y = y" and "y \<le> 2 ^ 63"
  shows "\<exists>d. relativeDifference (Fin False x) (Fin False y) = Fin False d \<and> 0 \<le> d \<and> d \<le> 1"
proof (cases "x = 0 \<and> y = 0")
  case True
  then show ?thesis by (simp add: relativeDifference_def feq_zero f0_def)
next
  case False
  define M where "M = max x y"
  have M: "0 < M" "rnd M = M" "M \<le> 2 ^ 63"
    using assms False by (auto simp: M_def max_def)
  have rd: "relativeDifference (Fin False x) (Fin False y) =
      fdiv (if x = y then Fin False 0 else fl False \<bar>x - y\<bar>) (Fin False M)"
    using False
    by (auto simp add: relativeDifference_def feq_zero max_float64_nonneg fabs_fsub_nonneg M_def
        simp del: fdiv.simps)
  show ?thesis
  proof (cases "x = y")
    case True
    have "fdiv (Fin False 0) (Fin False M) = Fin False 0"
      using M(1) by (simp add: fl_0)
    then have "relativeDifference (Fin False x) (Fin False y) = Fin False 0"
      unfolding rd using True by (simp only: refl if_True)
    then show ?thesis by simp
  next
    case False
    define e where "e = rnd \<bar>x - y\<bar>"
    have "\<bar>x - y\<bar> \<le> M"
      using assms by (simp add: M_def max_def abs_le_iff)
    then have "rnd \<bar>x - y\<bar> \<le> rnd M"
      by (intro rnd_mono) simp_all
    then have e: "0 \<le> e" "e \<le> M"
      by (simp_all add: e_def M(2) rnd_nonneg)
    have "fl False \<bar>x - y\<bar> = Fin False e"
      unfolding e_def using e M(3) by (intro fl_small) (simp_all add: e_def)
    then have "relativeDifference (Fin False x) (Fin False y) = fl False (e / M)"
      unfolding rd using False M(1) by simp
    moreover have q: "0 \<le> e / M" "e / M \<le> 1"
      using e M(1) by simp_all
    then have "rnd (e / M) \<le> rnd 1"
      by (intro rnd_mono)
    then have r: "rnd (e / M) \<le> 1"
      by (simp add: rnd_1)
    then have "fl False (e / M) = Fin False (rnd (e / M))"
      using q by (intro fl_small) simp_all
    ultimately show ?thesis
      using r rnd_nonneg [OF q(1)] by simp
  qed
qed

lemma relativeDifference_same:
  assumes "0 \<le> x"
  shows "relativeDifference (Fin False x) (Fin False x) = f0"
  using assms
  by (simp add: relativeDifference_def feq_zero max_float64_nonneg fabs_fsub_nonneg fl_0 f0_def)

lemma one_minus_range:
  assumes "0 \<le> d" and "d \<le> 1"
  shows "\<exists>w. fsub f1 (Fin False d) = Fin False w \<and> 0 \<le> w \<and> w \<le> 1"
proof (cases "d = 1")
  case True
  then show ?thesis by (simp add: fsub_def f1_def sv_def)
next
  case False
  with assms have v: "0 < 1 - d" "1 - d \<le> 1" by simp_all
  then have "rnd (1 - d) \<le> rnd 1"
    by (intro rnd_mono) simp_all
  then have r: "rnd (1 - d) \<le> 1"
    by (simp add: rnd_1)
  then have "fl False (1 - d) = Fin False (rnd (1 - d))"
    using v by (intro fl_small) simp_all
  moreover have "fsub f1 (Fin False d) = fl False (1 - d)"
    using v by (simp add: fsub_def f1_def sv_def Let_def)
  ultimately show ?thesis
    using r rnd_nonneg [of "1 - d"] v by simp
qed

lemma fsub_f1_f0: "fsub f1 f0 = f1"
  by (simp add: fsub_def f1_def f0_def sv_def fl_1)

lemma fmul_range:
  assumes "0 \<le> x" and "rnd x = x" and "x \<le> 2 ^ 63" and "0 \<le> w" and "w \<le> 1"
  shows "\<exists>z. fmul (Fin False x) (Fin False w) = Fin False z \<and> 0 \<le> z \<and> z \<le> x"
proof -
  have p: "0 \<le> x * w" "x * w \<le> x"
    using assms by (simp_all add: mult_left_le)
  then have "rnd (x * w) \<le> rnd x"
    by (intro rnd_mono)
  then have r: "rnd (x * w) \<le> x"
    by (simp add: assms(2))
  then have "fl False (x * w) = Fin False (rnd (x * w))"
    using p assms(3) by (intro fl_small) simp_all
  then show ?thesis
    using r rnd_nonneg [OF p(1)] by simp
qed

lemma fmul_f1:
  assumes "0 \<le> x" and "rnd x = x" and "x \<le> 2 ^ 63"
  shows "fmul (Fin False x) f1 = Fin False x"
proof -
  have "fl False x = Fin False (rnd x)"
    using assms by (intro fl_small) simp_all
  then show ?thesis
    by (simp add: f1_def assms(2))
qed

lemma term_range:
  assumes "0 \<le> x" and "rnd x = x" and "x \<le> 2 ^ 63"
    and "0 \<le> y" and "rnd y = y" and "y \<le> 2 ^ 63"
  shows "\<exists>z. fmul (Fin False x) (fsub f1 (relativeDifference (Fin False x) (Fin False y))) = Fin False z
           \<and> 0 \<le> z \<and> z \<le> x"
proof -
  from relativeDifference_range [OF assms] obtain d where
    d: "relativeDifference (Fin False x) (Fin False y) = Fin False d" "0 \<le> d" "d \<le> 1"
    by blast
  from one_minus_range [OF d(2,3)] obtain w where
    w: "fsub f1 (Fin False d) = Fin False w" "0 \<le> w" "w \<le> 1"
    by blast
  from fmul_range [OF assms(1-3) w(2,3)] show ?thesis
    by (simp add: d(1) w(1))
qed

lemma term_same:
  assumes "0 \<le> x" and "rnd x = x" and "x \<le> 2 ^ 63"
  shows "fmul (Fin False x) (fsub f1 (relativeDifference (Fin False x) (Fin False x))) = Fin False x"
  using assms by (simp add: relativeDifference_same fsub_f1_f0 fmul_f1)

lemma sum_list_bytes:
  fixes g :: "byte \<Rightarrow> 'a::comm_monoid_add"
  shows "sum_list (map (\<lambda>i. g (word_of_nat i)) [0..<256]) = (\<Sum>b\<in>UNIV. g b)"
proof -
  have "sum_list (map (\<lambda>i. g (word_of_nat i)) [0..<256]) = (\<Sum>i = 0..<256. g (word_of_nat i))"
    by (simp add: interv_sum_list_conv_sum_set_nat)
  also have "\<dots> = sum g (word_of_nat ` {0..<256})"
    using inj_on_word_of_nat [where 'a = 8] by (simp add: sum.reindex)
  also have "word_of_nat ` {0..<256} = (UNIV :: byte set)"
    using UNIV_word_eq_word_of_nat [where 'a = 8] by simp
  finally show ?thesis .
qed

lemma trained_sint:
  assumes "length S < 2 ^ 63"
  shows "sint (frequency (Feed NewAnalyzer S) b) = int (count_list S b)"
    and "sint (size (Feed NewAnalyzer S)) = int (length S)"
proof -
  have "count_list S b \<le> length S" by (rule count_le_length)
  with assms have "count_list S b < 2 ^ 63" by simp
  then show "sint (frequency (Feed NewAnalyzer S) b) = int (count_list S b)"
    by (simp add: frequency_Feed NewAnalyzer_def sint_of_nat64)
  from assms show "sint (size (Feed NewAnalyzer S)) = int (length S)"
    by (simp add: size_Feed_New sint_of_nat64)
qed

lemma trained_sum:
  assumes "length S < 2 ^ 63"
  shows "(\<Sum>b\<in>UNIV. sint (frequency (Feed NewAnalyzer S) b)) = sint (size (Feed NewAnalyzer S))"
proof -
  have "(\<Sum>b\<in>(UNIV :: byte set). count_list S b) = length S"
    by (rule sum_count_set) simp_all
  then have "(\<Sum>b\<in>(UNIV :: byte set). int (count_list S b)) = int (length S)"
    by (simp flip: of_nat_sum)
  then show ?thesis
    by (simp only: trained_sint [OF assms])
qed

lemma sum_nfreq_upper:
  assumes "0 < n" and "n < 2 ^ 63" and "\<forall>i. 0 \<le> c i \<and> c i < 2 ^ 63"
  shows "sum_list (map (\<lambda>i. nfreq (c i) n) xs)
      \<le> of_int (sum_list (map c xs)) / of_int n * ((1 + u53) ^ 2 / (1 - u53))"
proof (induction xs)
  case Nil
  then show ?case by simp
next
  case (Cons x xs)
  have "nfreq (c x) n \<le> of_int (c x) / of_int n * ((1 + u53) ^ 2 / (1 - u53))"
    using assms by (intro nfreq_upper) simp_all
  with Cons show ?case
    by (simp add: add_divide_distrib distrib_right)
qed

lemma sum_nfreq_lower:
  assumes "0 < n" and "n < 2 ^ 63" and "\<forall>i. 0 \<le> c i \<and> c i < 2 ^ 63"
  shows "of_int (sum_list (map c xs)) / of_int n * ((1 - u53) ^ 2 / (1 + u53))
      \<le> sum_list (map (\<lambda>i. nfreq (c i) n) xs)"
proof (induction xs)
  case Nil
  then show ?case by simp
next
  case (Cons x xs)
  have "of_int (c x) / of_int n * ((1 - u53) ^ 2 / (1 + u53)) \<le> nfreq (c x) n"
    using assms by (intro nfreq_lower) simp_all
  with Cons show ?case
    by (simp add: add_divide_distrib distrib_right)
qed

text \<open>The loop as a sum of the terms.\<close>

lemma scoreFrequencies_terms:
  "scoreFrequencies ref target =
     foldl fadd f0
       (map (\<lambda>i. fmul (normalized ref i)
                  (fsub f1 (relativeDifference (normalized ref i) (normalized target i))))
         [0..<256])"
proof -
  have "score_step ref target =
      (\<lambda>s i. fadd s (fmul (normalized ref i)
          (fsub f1 (relativeDifference (normalized ref i) (normalized target i)))))"
    by (intro ext) (simp add: score_step_def Let_def)
  then show ?thesis
    by (simp add: scoreFrequencies_def foldl_map)
qed

lemma fsum_normalized_upper:
  assumes "0 < n" and "n < 2 ^ 63" and "\<forall>i. 0 \<le> c i \<and> c i < 2 ^ 63"
    and "sum_list (map c [0..<256]) \<le> n"
  shows "fsum 0 (map (\<lambda>i. nfreq (c i) n) [0..<256]) \<le> 1 + 1 / 2 ^ 44"
proof -
  define K where "K = (1 + u53) ^ 2 / (1 - u53)"
  have K: "0 \<le> K" unfolding K_def using u53_bounds by simp
  have p: "0 \<le> (1 + u53) ^ 256" using u53_bounds by simp
  have nf: "noz (nfreq (c i) n)" for i
    using assms by (intro nfreq_facts(4)) simp_all
  have nz: "noz 0" "\<forall>x\<in>set (map (\<lambda>i. nfreq (c i) n) [0..<256]). noz x"
    by (simp_all add: nf) (simp add: noz_def)
  have "fsum 0 (map (\<lambda>i. nfreq (c i) n) [0..<256])
      \<le> (0 + sum_list (map (\<lambda>i. nfreq (c i) n) [0..<256])) * (1 + u53) ^ length (map (\<lambda>i. nfreq (c i) n) [0..<256])"
    using nz by (rule fsum_upper)
  also have "\<dots> = sum_list (map (\<lambda>i. nfreq (c i) n) [0..<256]) * (1 + u53) ^ 256"
    by simp
  also have "\<dots> \<le> (of_int (sum_list (map c [0..<256])) / of_int n * K) * (1 + u53) ^ 256"
    unfolding K_def using sum_nfreq_upper [OF assms(1-3)] p by (intro mult_right_mono)
  also have "\<dots> \<le> (1 * K) * (1 + u53) ^ 256"
  proof (intro mult_right_mono p K)
    from assms(4) have "(of_int (sum_list (map c [0..<256])) :: rat) \<le> of_int n"
      by (simp only: of_int_le_iff)
    with assms(1) show "(of_int (sum_list (map c [0..<256])) :: rat) / of_int n \<le> 1"
      by simp
  qed
  also have "\<dots> = (1 + u53) ^ 258 / (1 - u53)"
    by (simp add: K_def power_add [symmetric])
  also have "\<dots> \<le> 1 + 1 / 2 ^ 44"
    by (rule num_upper)
  finally show ?thesis .
qed

lemma fsum_normalized_lower:
  assumes "0 < n" and "n < 2 ^ 63" and "\<forall>i. 0 \<le> c i \<and> c i < 2 ^ 63"
    and "sum_list (map c [0..<256]) = n"
  shows "1 - 1 / 2 ^ 44 \<le> fsum 0 (map (\<lambda>i. nfreq (c i) n) [0..<256])"
proof -
  define K where "K = (1 - u53) ^ 2 / (1 + u53)"
  have p: "0 \<le> (1 - u53) ^ 256" using u53_bounds by simp
  have nf: "noz (nfreq (c i) n)" for i
    using assms(1-3) by (intro nfreq_facts(4)) simp_all
  have nz: "noz 0" "\<forall>x\<in>set (map (\<lambda>i. nfreq (c i) n) [0..<256]). noz x"
    by (simp_all add: nf) (simp add: noz_def)
  have "1 - 1 / 2 ^ 44 \<le> (1 - u53) ^ 258 / (1 + u53)"
    by (rule num_lower)
  also have "\<dots> = (of_int n / of_int n * K) * (1 - u53) ^ 256"
    using assms(1) by (simp add: K_def power_add [symmetric])
  also have "\<dots> \<le> sum_list (map (\<lambda>i. nfreq (c i) n) [0..<256]) * (1 - u53) ^ 256"
    unfolding K_def using sum_nfreq_lower [OF assms(1-3), of "[0..<256]"] p
    by (intro mult_right_mono) (simp_all only: assms(4))
  also have "\<dots> = (0 + sum_list (map (\<lambda>i. nfreq (c i) n) [0..<256])) * (1 - u53) ^ length (map (\<lambda>i. nfreq (c i) n) [0..<256])"
    by simp
  also have "\<dots> \<le> fsum 0 (map (\<lambda>i. nfreq (c i) n) [0..<256])"
    using nz by (rule fsum_lower)
  finally show ?thesis .
qed

lemma trained_normalized:
  assumes "S \<noteq> []" and "length S < 2 ^ 63"
  shows "normalized (Feed NewAnalyzer S) i =
      Fin False (nfreq (int (count_list S (word_of_nat i))) (int (length S)))"
proof -
  have "0 \<le> sint (frequency (Feed NewAnalyzer S) (word_of_nat i))"
    and "0 < sint (size (Feed NewAnalyzer S))"
    using assms(1) by (simp_all only: trained_sint [OF assms(2)]) simp_all
  from normalized_nfreq [OF this] show ?thesis
    by (simp only: trained_sint [OF assms(2)])
qed

lemma trained_counts:
  assumes "length S < 2 ^ 63"
  shows "\<forall>i. 0 \<le> int (count_list S (word_of_nat i :: byte)) \<and>
             int (count_list S (word_of_nat i :: byte)) < 2 ^ 63"
    and "sum_list (map (\<lambda>i. int (count_list S (word_of_nat i :: byte))) [0..<256]) = int (length S)"
proof -
  have "count_list S b < 2 ^ 63" for b :: byte
    using count_le_length [of S b] assms by simp
  then have "int (count_list S b) < 2 ^ 63" for b :: byte
    by (metis of_nat_less_iff of_nat_numeral of_nat_power)
  then show "\<forall>i. 0 \<le> int (count_list S (word_of_nat i :: byte)) \<and>
             int (count_list S (word_of_nat i :: byte)) < 2 ^ 63"
    by simp
  have "(\<Sum>b\<in>(UNIV :: byte set). count_list S b) = length S"
    by (rule sum_count_set) simp_all
  then have "(\<Sum>b\<in>(UNIV :: byte set). int (count_list S b)) = int (length S)"
    by (simp flip: of_nat_sum)
  then show "sum_list (map (\<lambda>i. int (count_list S (word_of_nat i :: byte))) [0..<256]) = int (length S)"
    by (simp only: sum_list_bytes [of "\<lambda>b. int (count_list S b)"])
qed

text \<open>
  C4. For every Analyzer whose size is positive and whose counters are not negative and sum
  to no more than size (as after training on a non-empty corpus, where they sum to size),
  and for every non-empty content, Score returns a finite number between 0 and 1, up to
  rounding: at most 1 + 2^-44.
\<close>

theorem Score_range:
  assumes "0 < sint (size a)"
    and "\<forall>b. 0 \<le> sint (frequency a b)"
    and "(\<Sum>b\<in>UNIV. sint (frequency a b)) \<le> sint (size a)"
    and "contents \<noteq> []"
    and "length contents < 2 ^ 63"
  shows "\<exists>q. Score a contents = Fin False q \<and> 0 \<le> q \<and> q \<le> 1 + 1 / 2 ^ 44"
proof -
  define target where "target = Feed NewAnalyzer contents"
  define c where "c i = sint (frequency a (word_of_nat i))" for i
  define n where "n = sint (size a)"
  define d where "d i = int (count_list contents (word_of_nat i :: byte))" for i
  define m where "m = int (length contents)"
  define tm where "tm i = fmul (normalized a i)
      (fsub f1 (relativeDifference (normalized a i) (normalized target i)))" for i
  have n: "0 < n" "n < 2 ^ 63"
    using assms(1) sint_lt [of "size a"] by (simp_all add: n_def)
  have c: "\<forall>i. 0 \<le> c i \<and> c i < 2 ^ 63"
    using assms(2) sint_lt [of "frequency a _"] by (simp add: c_def)
  have m: "0 < m" "m < 2 ^ 63"
    using assms(4,5) by (simp_all add: m_def)
  have d: "\<forall>i. 0 \<le> d i \<and> d i < 2 ^ 63"
    unfolding d_def by (rule trained_counts(1) [OF assms(5)])
  have na: "normalized a i = Fin False (nfreq (c i) n)" for i
    unfolding c_def n_def using assms(1,2) by (intro normalized_nfreq) simp_all
  have nt: "normalized target i = Fin False (nfreq (d i) m)" for i
    unfolding target_def d_def m_def using assms(4,5) by (rule trained_normalized)
  have "\<exists>z. tm i = Fin False z \<and> 0 \<le> z \<and> z \<le> nfreq (c i) n" for i
    unfolding tm_def na nt using c d n m
    by (intro term_range nfreq_facts) simp_all
  then obtain z where z: "\<And>i. tm i = Fin False (z i) \<and> 0 \<le> z i \<and> z i \<le> nfreq (c i) n"
    by metis
  have "c = (\<lambda>i. sint (frequency a (word_of_nat i)))"
    by (rule ext) (simp add: c_def)
  then have sum: "sum_list (map c [0..<256]) \<le> n"
    using assms(3) sum_list_bytes [of "\<lambda>b. sint (frequency a b)"] by (simp add: n_def)
  have "fsum 0 (map z [0..<256]) \<le> fsum 0 (map (\<lambda>i. nfreq (c i) n) [0..<256])"
    using z by (intro fsum_mono) (simp_all add: list_all2_map1 list_all2_map2 list_all2_same)
  also have "\<dots> \<le> 1 + 1 / 2 ^ 44"
    using n c sum by (rule fsum_normalized_upper)
  finally have up: "fsum 0 (map z [0..<256]) \<le> 1 + 1 / 2 ^ 44" .
  have "(1::rat) + 1 / 2 ^ 44 < 2 powi 1024"
    by simp
  with up have lt: "fsum 0 (map z [0..<256]) < 2 powi 1024"
    by simp
  have nn: "\<forall>x\<in>set (map z [0..<256]). 0 \<le> x"
    using z by simp
  have "tm = (\<lambda>i. fmul (normalized a i)
      (fsub f1 (relativeDifference (normalized a i) (normalized target i))))"
    by (rule ext) (simp add: tm_def)
  then have "Score a contents = foldl fadd f0 (map tm [0..<256])"
    by (simp add: Score_def scoreFrequencies_terms target_def)
  also have "map tm [0..<256] = map (Fin False) (map z [0..<256])"
    using z by simp
  also have "foldl fadd f0 (map (Fin False) (map z [0..<256])) = Fin False (fsum 0 (map z [0..<256]))"
    unfolding f0_def using rnd_0 _ nn lt by (rule foldl_fadd_fsum) simp
  finally have "Score a contents = Fin False (fsum 0 (map z [0..<256]))" .
  moreover have "0 \<le> fsum 0 (map z [0..<256])"
    using _ nn by (rule fsum_nonneg) simp
  ultimately show ?thesis
    using up by blast
qed

theorem Score_range_witness:
  "0 < sint (size (Feed NewAnalyzer [120, 121])) \<and>
   (\<forall>b. 0 \<le> sint (frequency (Feed NewAnalyzer [120, 121]) b)) \<and>
   (\<Sum>b\<in>UNIV. sint (frequency (Feed NewAnalyzer [120, 121]) b)) \<le> sint (size (Feed NewAnalyzer [120, 121])) \<and>
   [121::byte] \<noteq> [] \<and> length [121::byte] < 2 ^ 63 \<and>
   (\<exists>q. Score (Feed NewAnalyzer [120, 121]) [121] = Fin False q \<and> 0 \<le> q \<and> q \<le> 1 + 1 / 2 ^ 44)"
proof -
  have l: "length [120::byte, 121] < 2 ^ 63"
    by simp
  have h1: "0 < sint (size (Feed NewAnalyzer [120, 121]))"
    by (simp only: trained_sint [OF l]) simp
  have h2: "\<forall>b. 0 \<le> sint (frequency (Feed NewAnalyzer [120, 121]) b)"
    by (simp only: trained_sint [OF l]) simp
  have h3: "(\<Sum>b\<in>UNIV. sint (frequency (Feed NewAnalyzer [120, 121]) b))
      \<le> sint (size (Feed NewAnalyzer [120, 121]))"
    by (simp only: trained_sum [OF l])
  have h4: "[121::byte] \<noteq> []" and h5: "length [121::byte] < 2 ^ 63"
    by simp_all
  from h1 h2 h3 h4 h5 Score_range [OF h1 h2 h3 h4 h5] show ?thesis
    by blast
qed

lemma Score_self_fsum:
  assumes "S \<noteq> []" and "length S < 2 ^ 63"
  shows "Score (Feed NewAnalyzer S) S =
      Fin False (fsum 0 (map (\<lambda>i. nfreq (int (count_list S (word_of_nat i :: byte))) (int (length S)))
        [0..<256]))"
    and "1 - 1 / 2 ^ 44 \<le>
      fsum 0 (map (\<lambda>i. nfreq (int (count_list S (word_of_nat i :: byte))) (int (length S))) [0..<256])"
    and "fsum 0 (map (\<lambda>i. nfreq (int (count_list S (word_of_nat i :: byte))) (int (length S))) [0..<256])
      \<le> 1 + 1 / 2 ^ 44"
proof -
  define a where "a = Feed NewAnalyzer S"
  define c where "c i = int (count_list S (word_of_nat i :: byte))" for i
  define n where "n = int (length S)"
  define xs where "xs = map (\<lambda>i. nfreq (c i) n) [0..<256]"
  have n: "0 < n" "n < 2 ^ 63"
    using assms by (simp_all add: n_def)
  have c: "\<forall>i. 0 \<le> c i \<and> c i < 2 ^ 63"
    unfolding c_def by (rule trained_counts(1) [OF assms(2)])
  have sum: "sum_list (map c [0..<256]) = n"
    unfolding c_def n_def by (rule trained_counts(2) [OF assms(2)])
  have na: "normalized a i = Fin False (nfreq (c i) n)" for i
    unfolding a_def c_def n_def using assms by (rule trained_normalized)
  have cb: "0 \<le> c i" "c i < 2 ^ 63" for i
    using c by simp_all
  note f = nfreq_facts [OF cb n]
  have tm: "fmul (normalized a i) (fsub f1 (relativeDifference (normalized a i) (normalized a i)))
      = Fin False (nfreq (c i) n)" for i
    unfolding na using f(1-3) by (rule term_same)
  have up: "fsum 0 xs \<le> 1 + 1 / 2 ^ 44"
    unfolding xs_def using n c sum by (intro fsum_normalized_upper) simp_all
  have lo: "1 - 1 / 2 ^ 44 \<le> fsum 0 xs"
    unfolding xs_def using n c sum by (rule fsum_normalized_lower)
  have "(1::rat) + 1 / 2 ^ 44 < 2 powi 1024"
    by simp
  with up have lt: "fsum 0 xs < 2 powi 1024"
    by simp
  have nn: "\<forall>x\<in>set xs. 0 \<le> x"
    using f(1) by (simp add: xs_def)
  have "Score a S = foldl fadd f0 (map (Fin False) xs)"
    by (simp add: Score_def scoreFrequencies_terms a_def [symmetric] tm xs_def comp_def)
  also have "\<dots> = Fin False (fsum 0 xs)"
    unfolding f0_def using rnd_0 _ nn lt by (rule foldl_fadd_fsum) simp
  finally have "Score a S = Fin False (fsum 0 xs)" .
  then show "Score (Feed NewAnalyzer S) S =
      Fin False (fsum 0 (map (\<lambda>i. nfreq (int (count_list S (word_of_nat i :: byte))) (int (length S)))
        [0..<256]))"
    by (simp only: a_def xs_def c_def n_def)
  from lo show "1 - 1 / 2 ^ 44 \<le>
      fsum 0 (map (\<lambda>i. nfreq (int (count_list S (word_of_nat i :: byte))) (int (length S))) [0..<256])"
    by (simp only: xs_def c_def n_def)
  from up show "fsum 0 (map (\<lambda>i. nfreq (int (count_list S (word_of_nat i :: byte))) (int (length S))) [0..<256])
      \<le> 1 + 1 / 2 ^ 44"
    by (simp only: xs_def c_def n_def)
qed

lemma relativeDifference_self:
  assumes "S \<noteq> []" and "length S < 2 ^ 63"
  shows "relativeDifference (normalized (Feed NewAnalyzer S) i) (normalized (Feed NewAnalyzer S) i) = f0"
proof -
  have "0 \<le> int (count_list S (word_of_nat i :: byte))" "int (count_list S (word_of_nat i :: byte)) < 2 ^ 63"
    using trained_counts(1) [OF assms(2)] by simp_all
  moreover have "0 < int (length S)" "int (length S) < 2 ^ 63"
    using assms by simp_all
  ultimately have "0 \<le> nfreq (int (count_list S (word_of_nat i :: byte))) (int (length S))"
    by (rule nfreq_facts(1))
  then show ?thesis
    unfolding trained_normalized [OF assms] by (rule relativeDifference_same)
qed

text \<open>
  C3, amended. For every non-empty byte sequence S, an Analyzer that was fed S once and
  nothing else scores S as 1 up to rounding: every relativeDifference term is 0, since each
  r_i equals t_i, and the score, the rounded sum of the r_i, is a finite number within
  2^-44 of 1.
\<close>

theorem Score_self:
  assumes "S \<noteq> []" and "length S < 2 ^ 63"
  shows "(\<exists>q. Score (Feed NewAnalyzer S) S = Fin False q \<and> 1 - 1 / 2 ^ 44 \<le> q \<and> q \<le> 1 + 1 / 2 ^ 44) \<and>
         (\<forall>i. relativeDifference (normalized (Feed NewAnalyzer S) i) (normalized (Feed NewAnalyzer S) i) = f0)"
  using Score_self_fsum [OF assms] relativeDifference_self [OF assms] by blast

theorem Score_self_witness:
  "[120::byte, 121, 120] \<noteq> [] \<and> length [120::byte, 121, 120] < 2 ^ 63 \<and>
   (\<exists>q. Score (Feed NewAnalyzer [120, 121, 120]) [120, 121, 120] = Fin False q \<and>
      1 - 1 / 2 ^ 44 \<le> q \<and> q \<le> 1 + 1 / 2 ^ 44) \<and>
   (\<forall>i. relativeDifference (normalized (Feed NewAnalyzer [120, 121, 120]) i)
          (normalized (Feed NewAnalyzer [120, 121, 120]) i) = f0)"
proof -
  have h1: "[120::byte, 121, 120] \<noteq> []" and h2: "length [120::byte, 121, 120] < 2 ^ 63"
    by simp_all
  from h1 h2 Score_self [OF h1 h2] show ?thesis
    by blast
qed

lemma byte_index:
  assumes "i < 256"
  shows "((word_of_nat i :: byte) = w) = (i = unat w)"
proof
  assume "(word_of_nat i :: byte) = w"
  then have "unat (word_of_nat i :: byte) = unat w" by simp
  with assms show "i = unat w" by (simp add: unat_of_nat)
next
  assume "i = unat w"
  then show "(word_of_nat i :: byte) = w" by simp
qed

lemma fsum_zeros:
  assumes "rnd s = s" and "\<forall>x\<in>set xs. x = 0"
  shows "fsum s xs = s"
  using assms by (induction xs) simp_all

lemma upt_256_split: "[0..<256] = [0..<97] @ [97, 98, 99] @ [100..<256]"
proof -
  have "[0..<256] = [0..<97] @ [97..<256]"
    using upt_add_eq_append [of 0 97 159] by simp
  also have "[97..<256] = [97, 98, 99] @ [100..<256]"
    by (simp add: upt_conv_Cons)
  finally show ?thesis .
qed

text \<open>
  When only the bytes 97, 98 and 99 (a, b and c) occur, the score of the training text is
  the rounded sum of their three normalized frequencies: the other 253 terms are zeros,
  before and after, and change nothing.
\<close>

lemma Score_self_abc:
  assumes "S \<noteq> []" and "length S < 2 ^ 63" and "set S \<subseteq> {97, 98, 99}"
  shows "Score (Feed NewAnalyzer S) S =
      Fin False (fsum 0 [nfreq (int (count_list S 97)) (int (length S)),
                         nfreq (int (count_list S 98)) (int (length S)),
                         nfreq (int (count_list S 99)) (int (length S))])"
proof -
  define g where "g i = nfreq (int (count_list S (word_of_nat i :: byte))) (int (length S))" for i
  define v where "v = fsum 0 (map g [97, 98, 99])"
  have g: "g = (\<lambda>i. nfreq (int (count_list S (word_of_nat i :: byte))) (int (length S)))"
    by (rule ext) (simp add: g_def)
  have out: "g i = 0" if "i < 256" and "i \<notin> {97, 98, 99}" for i
  proof -
    from that assms(3) have "(word_of_nat i :: byte) \<notin> set S"
      by (auto simp: byte_index)
    then show ?thesis
      by (simp add: g_def nfreq_0)
  qed
  have z1: "\<forall>x\<in>set (map g [0..<97]). x = 0"
    by (auto simp: out)
  have z2: "\<forall>x\<in>set (map g [100..<256]). x = 0"
    by (auto simp: out)
  have nn: "0 \<le> g i" for i
    using trained_counts(1) [OF assms(2)] assms(1,2)
    unfolding g_def by (intro nfreq_facts(1)) simp_all
  have "0 \<le> rnd (rnd (0 + g 97) + g 98) + g 99"
    by (intro add_nonneg_nonneg rnd_nonneg nn) simp
  then have "rnd (rnd (rnd (rnd (0 + g 97) + g 98) + g 99)) = rnd (rnd (rnd (0 + g 97) + g 98) + g 99)"
    by (rule rnd_idem)
  then have rv: "rnd v = v"
    by (simp add: v_def)
  have "fsum 0 (map g [0..<256]) = fsum (fsum (fsum 0 (map g [0..<97])) (map g [97, 98, 99])) (map g [100..<256])"
    by (simp only: upt_256_split map_append fsum_append)
  also have "fsum 0 (map g [0..<97]) = 0"
    using rnd_0 z1 by (rule fsum_zeros)
  also have "fsum 0 (map g [97, 98, 99]) = v"
    by (simp only: v_def)
  also have "fsum v (map g [100..<256]) = v"
    using rv z2 by (rule fsum_zeros)
  finally have "fsum 0 (map g [0..<256]) = v" .
  with Score_self_fsum(1) [OF assms(1,2)] have "Score (Feed NewAnalyzer S) S = Fin False v"
    by (simp only: g [symmetric])
  then show ?thesis
    by (simp add: v_def g_def)
qed

lemma fsum_abbbbc: "fsum 0 [nfreq 1 6, nfreq 4 6, nfreq 1 6] = 1 - 1 / 2 ^ 53"
  by code_simp

lemma fsum_aaabbbccc: "fsum 0 [nfreq 3 9, nfreq 3 9, nfreq 3 9] = 1"
  by code_simp

text \<open>The scenario of the spec: trained on "aaabbbccc", the score of "aaabbbccc" is exactly 1.\<close>

lemma Score_aaabbbccc:
  "Score (Feed NewAnalyzer [97, 97, 97, 98, 98, 98, 99, 99, 99]) [97, 97, 97, 98, 98, 98, 99, 99, 99] = f1"
proof -
  have "Score (Feed NewAnalyzer [97, 97, 97, 98, 98, 98, 99, 99, 99]) [97, 97, 97, 98, 98, 98, 99, 99, 99] =
      Fin False (fsum 0 [nfreq 3 9, nfreq 3 9, nfreq 3 9])"
    using Score_self_abc [of "[97, 97, 97, 98, 98, 98, 99, 99, 99]"] by simp
  then show ?thesis
    by (simp only: fsum_aaabbbccc f1_def)
qed

text \<open>
  C3, as stated: the score is exactly 1.0. For the six bytes of "abbbbc" the normalized
  frequencies are 1/6, 4/6 and 1/6, each rounded, and their rounded sum is the number
  just below 1, which prints as 0.9999999999999999.
\<close>

theorem Score_self_not_one:
  "Score (Feed NewAnalyzer [97, 98, 98, 98, 98, 99]) [97, 98, 98, 98, 98, 99] =
     Fin False (1 - 1 / 2 ^ 53) \<and>
   Score (Feed NewAnalyzer [97, 98, 98, 98, 98, 99]) [97, 98, 98, 98, 98, 99] \<noteq> f1"
proof -
  have "Score (Feed NewAnalyzer [97, 98, 98, 98, 98, 99]) [97, 98, 98, 98, 98, 99] =
      Fin False (fsum 0 [nfreq 1 6, nfreq 4 6, nfreq 1 6])"
    using Score_self_abc [of "[97, 98, 98, 98, 98, 99]"] by simp
  then have "Score (Feed NewAnalyzer [97, 98, 98, 98, 98, 99]) [97, 98, 98, 98, 98, 99] =
      Fin False (1 - 1 / 2 ^ 53)"
    by (simp only: fsum_abbbbc)
  then show ?thesis
    by (simp add: f1_def)
qed

end
